theory Spec2Isabelle
  imports Complex_Main "HOL-Library.Word" "HOL-Library.AList"
begin

section \<open>Text, exceptions and the world the translator runs in\<close>

text \<open>
  A Python \<open>str\<close> is a sequence of Unicode code points. Isabelle's \<open>char\<close> has only
  256 values, while a translation may hold any code point, so text is a list of code points.
\<close>

type_synonym uchar = nat
type_synonym ustr = "uchar list"
type_synonym byte = "8 word"
type_synonym path = string

definition ustr_of :: "string \<Rightarrow> ustr" where
  "ustr_of s = map of_char s"

definition QUOTE :: uchar where "QUOTE = 34"
definition NEWLINE :: uchar where "NEWLINE = 10"
definition BACKSLASH :: uchar where "BACKSLASH = 92"

text \<open>
  Exceptions: \<open>KeyboardInterrupt\<close> derives from \<open>BaseException\<close> only, so
  \<open>except Exception\<close> does not catch it; every other exception the program meets
  (network errors, \<open>OSError\<close>, \<open>UnicodeError\<close>, \<open>JSONDecodeError\<close>) derives from
  \<open>Exception\<close> and carries the text that \<open>str(e)\<close> prints.
\<close>

datatype exn = KeyboardInterrupt | Exception string

text \<open>What the program prints, on stderr and stdout, in the order printed.\<close>

datatype event =
    RetryWarn nat nat string rat
  | GiveUpWarn
  | DebugTrace "nat option" string ustr ustr
  | Header path path path nat ustr
  | Progress nat nat nat
  | InterruptedMsg
  | PartialOutputMsg path
  | DoneMsg path nat nat nat
  | FileNotFound path

text \<open>
  What the file system holds at a path. \<open>None\<close>: nothing is there, and an entry can be
  created. \<open>Regular r bs\<close>: a regular file with the bytes \<open>bs\<close>, which the process may
  read if \<open>r\<close>, and which it may write and rename. \<open>Pinned r bs\<close>: such a file in a
  directory the process may not write: it can be opened and written, not renamed or
  replaced. \<open>ReadOnly r bs\<close>: a regular file the process may not open for writing.
  \<open>Barred\<close>: nothing is there and nothing can be created (the parent directory is missing
  or may not be written). \<open>Unreachable\<close>: \<open>stat\<close> fails with an error other than
  \<open>ENOENT\<close>, \<open>ENOTDIR\<close>, \<open>EBADF\<close> and \<open>ELOOP\<close> (a name too long, a directory on the
  way that may not be searched), and so does every other access.
\<close>

datatype node =
    Directory
  | Regular bool "byte list"
  | Pinned bool "byte list"
  | ReadOnly bool "byte list"
  | Barred
  | Unreachable

type_synonym filesystem = "path \<Rightarrow> node option"

text \<open>
  The environment is everything the program does not control: the answer of the
  \<open>n\<close>-th call of \<open>translator.translate\<close> (counted from 0 over the whole run), whether
  the \<open>n\<close>-th \<open>time.sleep\<close> is cut short by Ctrl+C, whether Ctrl+C arrives while line
  \<open>n\<close> is being read, the \<open>n\<close>-th reading of \<open>time.time()\<close> (a float, which is a
  rational number), and the difference of two such readings as float arithmetic rounds it.
\<close>

record env =
  translate :: "nat \<Rightarrow> ustr \<Rightarrow> ustr \<Rightarrow> exn + ustr"
  sleep_interrupted :: "nat \<Rightarrow> bool"
  read_interrupted :: "nat \<Rightarrow> bool"
  time_time :: "nat \<Rightarrow> rat"
  float_sub :: "rat \<Rightarrow> rat \<Rightarrow> rat"

text \<open>
  The mutable state: the cache dictionary (insertion ordered, keys distinct), the log of
  calls made to the external translator, the waits performed, the diagnostics printed, the
  file system, the text written so far to the open output file \<open>fout\<close>, and the log
  of the calls of \<open>save_cache\<close> (the location and the mapping handed over).
  \<open>recursion_room\<close> is fixed: how many containers \<open>json.load\<close> may nest beyond the
  first before the interpreter's recursion limit stops it.
\<close>

record world =
  cache :: "(ustr \<times> ustr) list"
  calls :: "(ustr \<times> ustr) list"
  sleeps :: "rat list"
  diag :: "event list"
  files :: filesystem
  fout :: ustr
  saves :: "(path \<times> (ustr \<times> ustr) list) list"
  recursion_room :: nat

definition RETRY_LIMIT :: nat where "RETRY_LIMIT = 5"
definition BASE_BACKOFF :: rat where "BASE_BACKOFF = 3 / 4"
definition CACHE_SAVE_INTERVAL_SEC :: rat where "CACHE_SAVE_INTERVAL_SEC = 5"
definition PROGRESS_EVERY_LINES :: nat where "PROGRESS_EVERY_LINES = 200"

section \<open>translate_text_frag\<close>

text \<open>
  The body of \<open>for attempt in range(RETRY_LIMIT)\<close>, over the attempts still to make.
  \<open>Inr (Some t)\<close> is the \<open>return\<close> inside the loop, \<open>Inr None\<close> the loop running out.
\<close>

fun attempt_loop :: "env \<Rightarrow> ustr \<Rightarrow> ustr \<Rightarrow> nat list \<Rightarrow> world \<Rightarrow> (exn + ustr option) \<times> world" where
  "attempt_loop e text dest_code [] w = (Inr None, w)"
| "attempt_loop e text dest_code (attempt # rest) w =
     (let w1 = w\<lparr>calls := calls w @ [(text, dest_code)]\<rparr> in
      case translate e (length (calls w)) text dest_code of
        Inr t \<Rightarrow> (Inr (Some t), w1)
      | Inl KeyboardInterrupt \<Rightarrow> (Inl KeyboardInterrupt, w1)
      | Inl (Exception msg) \<Rightarrow>
          (let sleep_s = BASE_BACKOFF * 2 ^ attempt;
               w2 = w1\<lparr>diag := diag w1 @ [RetryWarn (attempt + 1) RETRY_LIMIT msg sleep_s]\<rparr>;
               w3 = w2\<lparr>sleeps := sleeps w2 @ [sleep_s]\<rparr>
           in if sleep_interrupted e (length (sleeps w2)) then (Inl KeyboardInterrupt, w3)
              else attempt_loop e text dest_code rest w3))"

definition translate_text_frag :: "env \<Rightarrow> ustr \<Rightarrow> ustr \<Rightarrow> world \<Rightarrow> (exn + ustr) \<times> world" where
  "translate_text_frag e text dest_code w =
     (case attempt_loop e text dest_code [0..<RETRY_LIMIT] w of
        (Inl x, w') \<Rightarrow> (Inl x, w')
      | (Inr (Some t), w') \<Rightarrow> (Inr t, w')
      | (Inr None, w') \<Rightarrow> (Inr text, w'\<lparr>diag := diag w' @ [GiveUpWarn]\<rparr>))"


section \<open>Quoted fragments: QUOTE_RE and translate_line\<close>

text \<open>
  \<open>str.strip()\<close> removes the characters for which \<open>str.isspace\<close> holds, at both ends.
\<close>

definition py_isspace :: "uchar \<Rightarrow> bool" where
  "py_isspace c =
     ((9 \<le> c \<and> c \<le> 13) \<or> (28 \<le> c \<and> c \<le> 32) \<or> c = 133 \<or> c = 160 \<or> c = 5760
      \<or> (8192 \<le> c \<and> c \<le> 8202) \<or> c = 8232 \<or> c = 8233 \<or> c = 8239 \<or> c = 8287 \<or> c = 12288)"

definition py_strip :: "ustr \<Rightarrow> ustr" where
  "py_strip s = rev (dropWhile py_isspace (rev (dropWhile py_isspace s)))"

text \<open>
  The pattern \<open>"(.*?)"\<close>: from an opening quote, the shortest run of characters other than
  a newline (which \<open>.\<close> does not match) up to the next quote. \<open>find_close\<close> reads the text
  after an opening quote and gives the group and the text after the closing quote.
\<close>

fun find_close :: "ustr \<Rightarrow> (ustr \<times> ustr) option" where
  "find_close [] = None"
| "find_close (c # cs) =
     (if c = QUOTE then Some ([], cs)
      else if c = NEWLINE then None
      else (case find_close cs of
              None \<Rightarrow> None
            | Some (inner, rest) \<Rightarrow> Some (c # inner, rest)))"

text \<open>
  \<open>re.sub\<close> scans left to right for non-overlapping matches: a character that starts no
  match is copied, a match is handed to the replacement function.
\<close>

datatype piece = Lit uchar | Frag ustr

function quote_matches :: "ustr \<Rightarrow> piece list" where
  "quote_matches [] = []"
| "quote_matches (c # cs) =
     (if c = QUOTE then
        (case find_close cs of
           Some (inner, rest) \<Rightarrow> Frag inner # quote_matches rest
         | None \<Rightarrow> Lit c # quote_matches cs)
      else Lit c # quote_matches cs)"
  by pat_completeness auto
termination quote_matches
proof (relation "measure length")
  show "wf (measure length)" by simp
next
  fix c :: uchar and cs :: ustr and x2 :: "ustr \<times> ustr" and inner rest :: ustr
  assume "find_close cs = Some x2" and "(inner, rest) = x2"
  then have "find_close cs = Some (inner, rest)" by simp
  then have "length rest < length cs"
  proof (induction cs arbitrary: inner)
    case Nil
    then show ?case by simp
  next
    case (Cons a as)
    then show ?case
      by (fastforce split: if_splits option.splits)
  qed
  then show "(rest, c # cs) \<in> measure length" by simp
qed simp_all

definition trunc :: "ustr \<Rightarrow> ustr" where
  "trunc s = (if length s \<le> 180 then s else take 180 s @ [8230])"

text \<open>
  The replacement function \<open>_repl\<close>, for a match whose group is \<open>inner\<close>. The flag is the
  closure variable \<open>changed\<close>. In debug mode the trace is recorded as printed; that
  \<open>print\<close> raises \<open>UnicodeEncodeError\<close> for text that stdout cannot encode is not part
  of the model.
\<close>

definition repl :: "env \<Rightarrow> ustr \<Rightarrow> bool \<Rightarrow> nat option \<Rightarrow> ustr \<Rightarrow> bool \<Rightarrow> world
    \<Rightarrow> (exn + ustr \<times> bool) \<times> world" where
  "repl e dest debug lineno inner changed w =
     (if py_strip inner = [] then (Inr (QUOTE # inner @ [QUOTE], changed), w)
      else
        (case (case map_of (cache w) inner of
                 Some out \<Rightarrow> (Inr (out, ''cache''), w)
               | None \<Rightarrow>
                   (case translate_text_frag e inner dest w of
                      (Inl x, w1) \<Rightarrow> (Inl x, w1)
                    | (Inr out, w1) \<Rightarrow>
                        (Inr (out, ''google''), w1\<lparr>cache := AList.update inner out (cache w1)\<rparr>))) of
           (Inl x, w1) \<Rightarrow> (Inl x, w1)
         | (Inr (out, source), w1) \<Rightarrow>
             (let w2 = (if debug
                        then w1\<lparr>diag := diag w1 @ [DebugTrace lineno source (trunc inner) (trunc out)]\<rparr>
                        else w1)
              in (Inr (QUOTE # out @ [QUOTE], changed \<or> out \<noteq> inner), w2))))"

fun sub_pieces :: "env \<Rightarrow> ustr \<Rightarrow> bool \<Rightarrow> nat option \<Rightarrow> piece list \<Rightarrow> bool \<Rightarrow> world
    \<Rightarrow> (exn + ustr \<times> bool) \<times> world" where
  "sub_pieces e dest debug lineno [] changed w = (Inr ([], changed), w)"
| "sub_pieces e dest debug lineno (Lit c # ps) changed w =
     (case sub_pieces e dest debug lineno ps changed w of
        (Inl x, w1) \<Rightarrow> (Inl x, w1)
      | (Inr (out, changed1), w1) \<Rightarrow> (Inr (c # out, changed1), w1))"
| "sub_pieces e dest debug lineno (Frag inner # ps) changed w =
     (case repl e dest debug lineno inner changed w of
        (Inl x, w1) \<Rightarrow> (Inl x, w1)
      | (Inr (r, changed1), w1) \<Rightarrow>
          (case sub_pieces e dest debug lineno ps changed1 w1 of
             (Inl x, w2) \<Rightarrow> (Inl x, w2)
           | (Inr (out, changed2), w2) \<Rightarrow> (Inr (r @ out, changed2), w2)))"

definition translate_line :: "env \<Rightarrow> ustr \<Rightarrow> ustr \<Rightarrow> bool \<Rightarrow> nat option \<Rightarrow> world
    \<Rightarrow> (exn + ustr \<times> bool) \<times> world" where
  "translate_line e line dest debug lineno w =
     (if QUOTE \<notin> set line then (Inr (line, False), w)
      else sub_pieces e dest debug lineno (quote_matches line) False w)"


section \<open>Text files: encodings and line ends\<close>

text \<open>
  A single-byte codec is a table from bytes to characters; the error handler says what
  happens to a byte (on reading) or a character (on writing) the table does not cover:
  \<open>strict\<close> raises, \<open>ignore\<close> skips it, \<open>replace\<close> substitutes U+FFFD (reading) or
  \<open>?\<close> (writing).
\<close>

datatype error_handler = Strict | Ignore | Replace

fun charmap_decode :: "(byte \<Rightarrow> uchar option) \<Rightarrow> error_handler \<Rightarrow> byte list \<Rightarrow> exn + ustr" where
  "charmap_decode table h [] = Inr []"
| "charmap_decode table h (b # bs) =
     (case charmap_decode table h bs of
        Inl x \<Rightarrow> Inl x
      | Inr cs \<Rightarrow>
          (case table b of
             Some c \<Rightarrow> Inr (c # cs)
           | None \<Rightarrow>
               (case h of
                  Strict \<Rightarrow> Inl (Exception ''UnicodeDecodeError'')
                | Ignore \<Rightarrow> Inr cs
                | Replace \<Rightarrow> Inr (65533 # cs))))"

fun charmap_encode :: "(uchar \<Rightarrow> byte option) \<Rightarrow> error_handler \<Rightarrow> ustr \<Rightarrow> exn + byte list" where
  "charmap_encode table h [] = Inr []"
| "charmap_encode table h (c # cs) =
     (case charmap_encode table h cs of
        Inl x \<Rightarrow> Inl x
      | Inr bs \<Rightarrow>
          (case table c of
             Some b \<Rightarrow> Inr (b # bs)
           | None \<Rightarrow>
               (case h of
                  Strict \<Rightarrow> Inl (Exception ''UnicodeEncodeError'')
                | Ignore \<Rightarrow> Inr bs
                | Replace \<Rightarrow> Inr (63 # bs))))"

definition latin1_decoding :: "byte \<Rightarrow> uchar option" where
  "latin1_decoding b = Some (unat b)"

definition latin1_encoding :: "uchar \<Rightarrow> byte option" where
  "latin1_encoding c = (if c < 256 then Some (of_nat c) else None)"

text \<open>
  Text mode with the default \<open>newline=None\<close>: on reading, \<open>\r\n\<close> and a lone \<open>\r\<close>
  become \<open>\n\<close>; on writing, \<open>\n\<close> becomes \<open>os.linesep\<close>, which is \<open>\n\<close> on Linux.
\<close>

fun universal_newlines :: "ustr \<Rightarrow> ustr" where
  "universal_newlines [] = []"
| "universal_newlines [c] = (if c = 13 then [NEWLINE] else [c])"
| "universal_newlines (c # d # cs) =
     (if c = 13 \<and> d = NEWLINE then NEWLINE # universal_newlines cs
      else if c = 13 then NEWLINE # universal_newlines (d # cs)
      else c # universal_newlines (d # cs))"

text \<open>Iterating over a text file gives its lines, each with its line end.\<close>

fun split_keepends :: "ustr \<Rightarrow> ustr list" where
  "split_keepends [] = []"
| "split_keepends (c # cs) =
     (if c = NEWLINE then [c] # split_keepends cs
      else (case split_keepends cs of
              [] \<Rightarrow> [[c]]
            | l # ls \<Rightarrow> (c # l) # ls))"

text \<open>\<open>path.open("r", encoding="latin1", errors="ignore")\<close>, read to the end.\<close>

definition read_input :: "byte list \<Rightarrow> exn + ustr" where
  "read_input bs = map_sum id universal_newlines (charmap_decode latin1_decoding Ignore bs)"

text \<open>What \<open>out_path.open("w", encoding="latin1", errors="ignore")\<close> puts on disk for a text.\<close>

definition write_output :: "ustr \<Rightarrow> exn + byte list" where
  "write_output text = charmap_encode latin1_encoding Ignore text"

definition rstrip_newlines :: "ustr \<Rightarrow> ustr" where
  "rstrip_newlines s = rev (dropWhile (\<lambda>c. c = NEWLINE) (rev s))"

subsection \<open>UTF-8, the encoding of the cache file\<close>

definition utf8_encode_char :: "uchar \<Rightarrow> nat list option" where
  "utf8_encode_char c =
     (if c < 128 then Some [c]
      else if c < 2048 then Some [192 + c div 64, 128 + c mod 64]
      else if c < 65536 then
        (if 55296 \<le> c \<and> c \<le> 57343 then None
         else Some [224 + c div 4096, 128 + (c div 64) mod 64, 128 + c mod 64])
      else if c < 1114112 then
        Some [240 + c div 262144, 128 + (c div 4096) mod 64, 128 + (c div 64) mod 64, 128 + c mod 64]
      else None)"

fun utf8_encode :: "ustr \<Rightarrow> nat list option" where
  "utf8_encode [] = Some []"
| "utf8_encode (c # cs) =
     (case utf8_encode_char c of
        None \<Rightarrow> None
      | Some bs \<Rightarrow> map_option ((@) bs) (utf8_encode cs))"

definition is_cont :: "nat \<Rightarrow> bool" where
  "is_cont b = (128 \<le> b \<and> b < 192)"

text \<open>
  Strict decoding: a sequence is refused when a continuation byte is missing, when it is
  longer than its code point needs, when it encodes a surrogate or a value past U+10FFFF.
\<close>

fun utf8_decode :: "nat list \<Rightarrow> ustr option" where
  "utf8_decode [] = Some []"
| "utf8_decode (b0 # bs) =
     (if b0 < 128 then map_option ((#) b0) (utf8_decode bs)
      else if b0 < 192 then None
      else if b0 < 224 then
        (case bs of
           b1 # r \<Rightarrow>
             (let c = (b0 - 192) * 64 + (b1 - 128)
              in if is_cont b1 \<and> 128 \<le> c then map_option ((#) c) (utf8_decode r) else None)
         | _ \<Rightarrow> None)
      else if b0 < 240 then
        (case bs of
           b1 # b2 # r \<Rightarrow>
             (let c = (b0 - 224) * 4096 + (b1 - 128) * 64 + (b2 - 128)
              in if is_cont b1 \<and> is_cont b2 \<and> 2048 \<le> c \<and> \<not> (55296 \<le> c \<and> c \<le> 57343)
                 then map_option ((#) c) (utf8_decode r) else None)
         | _ \<Rightarrow> None)
      else if b0 < 248 then
        (case bs of
           b1 # b2 # b3 # r \<Rightarrow>
             (let c = (b0 - 240) * 262144 + (b1 - 128) * 4096 + (b2 - 128) * 64 + (b3 - 128)
              in if is_cont b1 \<and> is_cont b2 \<and> is_cont b3 \<and> 65536 \<le> c \<and> c < 1114112
                 then map_option ((#) c) (utf8_decode r) else None)
         | _ \<Rightarrow> None)
      else None)"


section \<open>JSON, as json.dump and json.load write and read it\<close>

datatype json =
    JNull
  | JBool bool
  | JNum ustr
  | JStr ustr
  | JArr "json list"
  | JObj "(ustr \<times> json) list"

subsection \<open>Writing: json.dump(cache, f, ensure_ascii=False, indent=2)\<close>

definition hex_digit :: "nat \<Rightarrow> uchar" where
  "hex_digit n = (if n < 10 then 48 + n else 87 + n)"

text \<open>
  With \<open>ensure_ascii=False\<close> only the quote, the backslash and the control characters
  below U+0020 are escaped; every other character is written as it is.
\<close>

definition escape_char :: "uchar \<Rightarrow> ustr" where
  "escape_char c =
     (if c = QUOTE then [BACKSLASH, QUOTE]
      else if c = BACKSLASH then [BACKSLASH, BACKSLASH]
      else if c = 10 then [BACKSLASH, 110]
      else if c = 13 then [BACKSLASH, 114]
      else if c = 9 then [BACKSLASH, 116]
      else if c = 8 then [BACKSLASH, 98]
      else if c = 12 then [BACKSLASH, 102]
      else if c < 32 then [BACKSLASH, 117, 48, 48, hex_digit (c div 16), hex_digit (c mod 16)]
      else [c])"

definition encode_basestring :: "ustr \<Rightarrow> ustr" where
  "encode_basestring s = QUOTE # concat (map escape_char s) @ [QUOTE]"

text \<open>
  The encoder yields the document in chunks, each written to the file on its own: the
  braces, the separators, and one chunk per key and per value.
\<close>

fun member_chunks :: "(ustr \<times> ustr) list \<Rightarrow> ustr list" where
  "member_chunks [] = []"
| "member_chunks ((k, v) # ms) =
     [[44, NEWLINE, 32, 32], encode_basestring k, [58, 32], encode_basestring v] @ member_chunks ms"

definition json_chunks :: "(ustr \<times> ustr) list \<Rightarrow> ustr list" where
  "json_chunks d =
     (case d of
        [] \<Rightarrow> [[123, 125]]
      | (k, v) # ms \<Rightarrow>
          [[123], [NEWLINE, 32, 32], encode_basestring k, [58, 32], encode_basestring v]
          @ member_chunks ms @ [[NEWLINE], [125]])"

definition json_dumps :: "(ustr \<times> ustr) list \<Rightarrow> ustr" where
  "json_dumps d = concat (json_chunks d)"

subsection \<open>Reading: json.load\<close>

definition is_json_ws :: "uchar \<Rightarrow> bool" where
  "is_json_ws c = (c = 32 \<or> c = 9 \<or> c = 10 \<or> c = 13)"

definition skip_ws :: "ustr \<Rightarrow> ustr" where
  "skip_ws s = dropWhile is_json_ws s"

definition hex_val :: "uchar \<Rightarrow> nat option" where
  "hex_val c =
     (if 48 \<le> c \<and> c \<le> 57 then Some (c - 48)
      else if 97 \<le> c \<and> c \<le> 102 then Some (c - 87)
      else if 65 \<le> c \<and> c \<le> 70 then Some (c - 55)
      else None)"

definition hex4 :: "uchar \<Rightarrow> uchar \<Rightarrow> uchar \<Rightarrow> uchar \<Rightarrow> nat option" where
  "hex4 a b c d =
     (case (hex_val a, hex_val b, hex_val c, hex_val d) of
        (Some x, Some y, Some z, Some u) \<Rightarrow> Some (((x * 16 + y) * 16 + z) * 16 + u)
      | _ \<Rightarrow> None)"

definition simple_escape :: "uchar \<Rightarrow> uchar option" where
  "simple_escape c =
     (if c = QUOTE then Some QUOTE
      else if c = BACKSLASH then Some BACKSLASH
      else if c = 47 then Some 47
      else if c = 98 then Some 8
      else if c = 102 then Some 12
      else if c = 110 then Some 10
      else if c = 114 then Some 13
      else if c = 116 then Some 9
      else None)"

text \<open>
  If the six characters after a \<open>\uXXXX\<close> escape of the high surrogate \<open>hi\<close> are the
  escape of a low surrogate, the code point of the pair.
\<close>

definition low_surrogate_after :: "nat \<Rightarrow> ustr \<Rightarrow> uchar option" where
  "low_surrogate_after hi r =
     (case r of
        b # u # k1 # k2 # k3 # k4 # r' \<Rightarrow>
          (if b = BACKSLASH \<and> u = 117 then
             (case hex4 k1 k2 k3 k4 of
                Some lo \<Rightarrow>
                  (if 56320 \<le> lo \<and> lo \<le> 57343
                   then Some (65536 + ((hi - 55296) * 1024 + (lo - 56320)))
                   else None)
              | None \<Rightarrow> None)
           else None)
      | _ \<Rightarrow> None)"

text \<open>
  A string, read from after its opening quote: the text and what follows the closing
  quote. A raw control character, an unknown escape or a missing closing quote is an error.
\<close>

function scanstring :: "ustr \<Rightarrow> (ustr \<times> ustr) option" where
  "scanstring [] = None"
| "scanstring (c # cs) =
     (if c = QUOTE then Some ([], cs)
      else if c = BACKSLASH then
        (case cs of
           [] \<Rightarrow> None
         | esc # r \<Rightarrow>
             (if esc = 117 then
                (case r of
                   h1 # h2 # h3 # h4 # r1 \<Rightarrow>
                     (case hex4 h1 h2 h3 h4 of
                        None \<Rightarrow> None
                      | Some u \<Rightarrow>
                          (case (if 55296 \<le> u \<and> u \<le> 56319 then low_surrogate_after u r1 else None) of
                             Some pair \<Rightarrow> map_option (\<lambda>(s, t). (pair # s, t)) (scanstring (drop 6 r1))
                           | None \<Rightarrow> map_option (\<lambda>(s, t). (u # s, t)) (scanstring r1)))
                 | _ \<Rightarrow> None)
              else
                (case simple_escape esc of
                   None \<Rightarrow> None
                 | Some x \<Rightarrow> map_option (\<lambda>(s, t). (x # s, t)) (scanstring r))))
      else if c < 32 then None
      else map_option (\<lambda>(s, t). (c # s, t)) (scanstring cs))"
  by pat_completeness auto
termination scanstring
  by (relation "measure length") auto


definition is_digit :: "uchar \<Rightarrow> bool" where
  "is_digit c = (48 \<le> c \<and> c \<le> 57)"

definition starts_with :: "ustr \<Rightarrow> ustr \<Rightarrow> bool" where
  "starts_with p s = (take (length p) s = p)"

text \<open>
  A number is \<open>-?(0|[1-9][0-9]*)(\.[0-9]+)?([eE][-+]?[0-9]+)?\<close>; the model keeps its
  text, since nothing here computes with it. A number without fraction and exponent is
  converted by \<open>int\<close>, which raises \<open>ValueError\<close> past \<open>sys.int_info.default_max_str_digits\<close>
  digits.
\<close>

definition scan_int :: "ustr \<Rightarrow> (ustr \<times> ustr) option" where
  "scan_int s =
     (case s of
        [] \<Rightarrow> None
      | c # cs \<Rightarrow>
          (if c = 48 then Some ([c], cs)
           else if 49 \<le> c \<and> c \<le> 57 then Some (c # takeWhile is_digit cs, dropWhile is_digit cs)
           else None))"

definition scan_frac :: "ustr \<Rightarrow> ustr \<times> ustr" where
  "scan_frac s =
     (case s of
        d # c # cs \<Rightarrow>
          (if d = 46 \<and> is_digit c then (d # c # takeWhile is_digit cs, dropWhile is_digit cs)
           else ([], s))
      | _ \<Rightarrow> ([], s))"

definition scan_exp :: "ustr \<Rightarrow> ustr \<times> ustr" where
  "scan_exp s =
     (case s of
        x # c # cs \<Rightarrow>
          (if x = 101 \<or> x = 69 then
             (if is_digit c then (x # c # takeWhile is_digit cs, dropWhile is_digit cs)
              else if c = 43 \<or> c = 45 then
                (case cs of
                   d # ds \<Rightarrow>
                     (if is_digit d then (x # c # d # takeWhile is_digit ds, dropWhile is_digit ds)
                      else ([], s))
                 | [] \<Rightarrow> ([], s))
              else ([], s))
           else ([], s))
      | _ \<Rightarrow> ([], s))"

definition INT_MAX_STR_DIGITS :: nat where "INT_MAX_STR_DIGITS = 4300"

definition scan_number :: "ustr \<Rightarrow> (ustr \<times> ustr) option" where
  "scan_number s =
     (let (sign, s1) = (case s of c # cs \<Rightarrow> if c = 45 then ([c], cs) else ([], s) | [] \<Rightarrow> ([], s))
      in case scan_int s1 of
           None \<Rightarrow> None
         | Some (i, s2) \<Rightarrow>
             (let (f, s3) = scan_frac s2; (x, s4) = scan_exp s3
              in if f = [] \<and> x = [] \<and> INT_MAX_STR_DIGITS < length i then None
                 else Some (sign @ i @ f @ x, s4)))"

text \<open>
  The scanner. The first number is fuel for the recursion of the model (a call consumes
  a character before it recurses, so fuel one more than the length of the text never runs
  out). The second is the nesting the interpreter still allows: entering an object or an
  array takes one level, and with none left \<open>RecursionError\<close> is raised.
  \<open>parse_members\<close> starts at the quote of a key, \<open>parse_elements\<close> at a value.
\<close>

fun parse_value :: "nat \<Rightarrow> nat \<Rightarrow> ustr \<Rightarrow> (json \<times> ustr) option"
  and parse_members :: "nat \<Rightarrow> nat \<Rightarrow> ustr \<Rightarrow> ((ustr \<times> json) list \<times> ustr) option"
  and parse_elements :: "nat \<Rightarrow> nat \<Rightarrow> ustr \<Rightarrow> (json list \<times> ustr) option" where
  "parse_value 0 k s = None"
| "parse_value (Suc n) k s =
     (case s of
        [] \<Rightarrow> None
      | c # cs \<Rightarrow>
          (if c = QUOTE then map_option (\<lambda>(t, r). (JStr t, r)) (scanstring cs)
           else if c = 123 then
             (if k = 0 then None
              else
                (case skip_ws cs of
                   [] \<Rightarrow> None
                 | d # ds \<Rightarrow>
                     (if d = 125 then Some (JObj [], ds)
                      else map_option (\<lambda>(ps, r). (JObj ps, r)) (parse_members n (k - 1) (d # ds)))))
           else if c = 91 then
             (if k = 0 then None
              else
                (case skip_ws cs of
                   [] \<Rightarrow> None
                 | d # ds \<Rightarrow>
                     (if d = 93 then Some (JArr [], ds)
                      else map_option (\<lambda>(vs, r). (JArr vs, r)) (parse_elements n (k - 1) (d # ds)))))
           else if starts_with (ustr_of ''null'') s then Some (JNull, drop 4 s)
           else if starts_with (ustr_of ''true'') s then Some (JBool True, drop 4 s)
           else if starts_with (ustr_of ''false'') s then Some (JBool False, drop 5 s)
           else if starts_with (ustr_of ''NaN'') s then Some (JNum (ustr_of ''NaN''), drop 3 s)
           else if starts_with (ustr_of ''Infinity'') s then Some (JNum (ustr_of ''Infinity''), drop 8 s)
           else if starts_with (ustr_of ''-Infinity'') s then Some (JNum (ustr_of ''-Infinity''), drop 9 s)
           else map_option (\<lambda>(t, r). (JNum t, r)) (scan_number s)))"
| "parse_members 0 k s = None"
| "parse_members (Suc n) k s =
     (case s of
        [] \<Rightarrow> None
      | q # cs \<Rightarrow>
          (if q \<noteq> QUOTE then None
           else
             (case scanstring cs of
                None \<Rightarrow> None
              | Some (key, r1) \<Rightarrow>
                  (case skip_ws r1 of
                     [] \<Rightarrow> None
                   | colon # r2 \<Rightarrow>
                       (if colon \<noteq> 58 then None
                        else
                          (case parse_value n k (skip_ws r2) of
                             None \<Rightarrow> None
                           | Some (v, r3) \<Rightarrow>
                               (case skip_ws r3 of
                                  [] \<Rightarrow> None
                                | d # r4 \<Rightarrow>
                                    (if d = 125 then Some ([(key, v)], r4)
                                     else if d = 44 then
                                       map_option (\<lambda>(ps, r). ((key, v) # ps, r))
                                         (parse_members n k (skip_ws r4))
                                     else None))))))))"
| "parse_elements 0 k s = None"
| "parse_elements (Suc n) k s =
     (case parse_value n k s of
        None \<Rightarrow> None
      | Some (v, r) \<Rightarrow>
          (case skip_ws r of
             [] \<Rightarrow> None
           | d # r1 \<Rightarrow>
               (if d = 93 then Some ([v], r1)
                else if d = 44 then
                  map_option (\<lambda>(vs, r2). (v # vs, r2)) (parse_elements n k (skip_ws r1))
                else None)))"

text \<open>
  \<open>json.loads\<close>, with \<open>depth\<close> levels of nesting allowed: a byte order mark is
  refused, white space may surround the one value, anything after it is an error. \<open>None\<close>
  is an exception raised: \<open>JSONDecodeError\<close>, the \<open>ValueError\<close> of \<open>int\<close>, or
  \<open>RecursionError\<close>, all of them caught by \<open>except Exception\<close>.
\<close>

definition json_loads :: "nat \<Rightarrow> ustr \<Rightarrow> json option" where
  "json_loads depth s =
     (if starts_with [65279] s then None
      else (case parse_value (Suc (length s)) depth (skip_ws s) of
              None \<Rightarrow> None
            | Some (v, r) \<Rightarrow> if skip_ws r = [] then Some v else None))"

text \<open>
  An object becomes a \<open>dict\<close>: a key met again keeps its place and takes the later value.
  The program's cache is a \<open>Dict[str, str]\<close>; any other value \<open>json.load\<close> may return is
  outside what the annotation allows, and is kept apart as \<open>Untyped\<close>.
\<close>

fun str_pairs :: "(ustr \<times> json) list \<Rightarrow> (ustr \<times> ustr) list option" where
  "str_pairs [] = Some []"
| "str_pairs ((k, JStr v) # ps) = map_option ((#) (k, v)) (str_pairs ps)"
| "str_pairs ((k, _) # ps) = None"

definition dict_of_pairs :: "(ustr \<times> ustr) list \<Rightarrow> (ustr \<times> ustr) list" where
  "dict_of_pairs ps = fold (\<lambda>(k, v) d. AList.update k v d) ps []"

datatype loaded = StrDict "(ustr \<times> ustr) list" | Untyped json

definition typed :: "json \<Rightarrow> loaded" where
  "typed j =
     (case j of
        JObj ps \<Rightarrow> (case str_pairs ps of Some qs \<Rightarrow> StrDict (dict_of_pairs qs) | None \<Rightarrow> Untyped j)
      | _ \<Rightarrow> Untyped j)"


section \<open>The cache file: load_cache and save_cache\<close>

text \<open>
  \<open>Path.is_file()\<close>: \<open>stat\<close> the path; the errors that mean there is no such entry
  give \<open>False\<close>, any other \<open>OSError\<close> is raised.
\<close>

definition is_file :: "filesystem \<Rightarrow> path \<Rightarrow> exn + bool" where
  "is_file fs p =
     (case fs p of
        None \<Rightarrow> Inr False
      | Some Directory \<Rightarrow> Inr False
      | Some Barred \<Rightarrow> Inr False
      | Some Unreachable \<Rightarrow> Inl (Exception ''OSError'')
      | Some (Regular r bs) \<Rightarrow> Inr True
      | Some (Pinned r bs) \<Rightarrow> Inr True
      | Some (ReadOnly r bs) \<Rightarrow> Inr True)"

text \<open>Opening for reading gives the bytes of a regular file the process may read.\<close>

definition open_r :: "node option \<Rightarrow> exn + byte list" where
  "open_r n =
     (case n of
        None \<Rightarrow> Inl (Exception ''FileNotFoundError'')
      | Some Barred \<Rightarrow> Inl (Exception ''FileNotFoundError'')
      | Some Directory \<Rightarrow> Inl (Exception ''IsADirectoryError'')
      | Some Unreachable \<Rightarrow> Inl (Exception ''OSError'')
      | Some (Regular r bs) \<Rightarrow> if r then Inr bs else Inl (Exception ''PermissionError'')
      | Some (Pinned r bs) \<Rightarrow> if r then Inr bs else Inl (Exception ''PermissionError'')
      | Some (ReadOnly r bs) \<Rightarrow> if r then Inr bs else Inl (Exception ''PermissionError''))"

text \<open>
  Opening for writing creates the file or empties the one that is there, which keeps its
  permissions; the result is the file as it will be once bytes are written. Where nothing
  can be created the error is \<open>FileNotFoundError\<close> or \<open>PermissionError\<close>, both an
  \<open>OSError\<close>.
\<close>

definition open_w :: "node option \<Rightarrow> exn + (byte list \<Rightarrow> node)" where
  "open_w n =
     (case n of
        None \<Rightarrow> Inr (Regular True)
      | Some (Regular r bs) \<Rightarrow> Inr (Regular r)
      | Some (Pinned r bs) \<Rightarrow> Inr (Pinned r)
      | Some (ReadOnly r bs) \<Rightarrow> Inl (Exception ''PermissionError'')
      | Some Directory \<Rightarrow> Inl (Exception ''IsADirectoryError'')
      | Some Barred \<Rightarrow> Inl (Exception ''OSError'')
      | Some Unreachable \<Rightarrow> Inl (Exception ''OSError''))"

text \<open>
  \<open>src.replace(dst)\<close>, for a file \<open>src\<close> just written, beside \<open>dst\<close> in one
  directory: whether that directory may be written shows in the state of \<open>src\<close>. A
  directory at \<open>dst\<close> is not replaced by a file.
\<close>

definition replace :: "path \<Rightarrow> path \<Rightarrow> filesystem \<Rightarrow> exn + filesystem" where
  "replace src dst fs =
     (case fs src of
        Some (Regular r bs) \<Rightarrow>
          (case fs dst of
             Some Directory \<Rightarrow> Inl (Exception ''IsADirectoryError'')
           | _ \<Rightarrow> Inr (fs(dst := fs src, src := None)))
      | Some (Pinned r bs) \<Rightarrow> Inl (Exception ''PermissionError'')
      | _ \<Rightarrow> Inl (Exception ''FileNotFoundError''))"

text \<open>The body of the \<open>try\<close> in \<open>load_cache\<close>: open the file as UTF-8 text and parse it.\<close>

definition read_json_file :: "nat \<Rightarrow> filesystem \<Rightarrow> path \<Rightarrow> exn + json" where
  "read_json_file depth fs p =
     (case open_r (fs p) of
        Inl x \<Rightarrow> Inl x
      | Inr bs \<Rightarrow>
          (case utf8_decode (map unat bs) of
             None \<Rightarrow> Inl (Exception ''UnicodeDecodeError'')
           | Some text \<Rightarrow>
               (case json_loads depth (universal_newlines text) of
                  None \<Rightarrow> Inl (Exception ''JSONDecodeError'')
                | Some j \<Rightarrow> Inr j)))"

text \<open>
  \<open>load_cache\<close>: the test \<open>is_file\<close> stands before the \<open>try\<close>, so what it raises
  leaves the function; \<open>except Exception\<close> turns every failure of the body into \<open>{}\<close>,
  and what \<open>json.load\<close> returns is returned as it is.
\<close>

definition load_cache :: "path \<Rightarrow> world \<Rightarrow> (exn + loaded) \<times> world" where
  "load_cache cache_file w =
     (case is_file (files w) cache_file of
        Inl x \<Rightarrow> (Inl x, w)
      | Inr False \<Rightarrow> (Inr (StrDict []), w)
      | Inr True \<Rightarrow>
          (case read_json_file (Suc (recursion_room w)) (files w) cache_file of
             Inr j \<Rightarrow> (Inr (typed j), w)
           | Inl (Exception msg) \<Rightarrow> (Inr (StrDict []), w)
           | Inl KeyboardInterrupt \<Rightarrow> (Inl KeyboardInterrupt, w)))"

definition encodable :: "ustr \<Rightarrow> bool" where
  "encodable s = (utf8_encode s \<noteq> None)"

definition utf8_bytes :: "ustr \<Rightarrow> byte list" where
  "utf8_bytes s = (case utf8_encode s of Some bs \<Rightarrow> map of_nat bs | None \<Rightarrow> [])"

text \<open>
  \<open>cache_file.with_suffix(cache_file.suffix + ".tmp")\<close> appends \<open>.tmp\<close> to the name.
\<close>

definition tmp_path :: "path \<Rightarrow> path" where
  "tmp_path cache_file = cache_file @ ''.tmp''"

text \<open>
  \<open>save_cache\<close>: the temporary file is opened for writing; the chunks are encoded and
  written one by one; a chunk that UTF-8 cannot encode (a lone surrogate) raises, leaving
  the chunks before it in the temporary file and the cache file as it was.
  \<open>tmp.replace(cache_file)\<close> then renames.
\<close>

definition save_cache :: "path \<Rightarrow> (ustr \<times> ustr) list \<Rightarrow> world \<Rightarrow> (exn + unit) \<times> world" where
  "save_cache cache_file d w0 =
     (let w = w0\<lparr>saves := saves w0 @ [(cache_file, d)]\<rparr>;
          tmp = tmp_path cache_file in
      case open_w (files w tmp) of
        Inl x \<Rightarrow> (Inl x, w)
      | Inr file \<Rightarrow>
          (let chunks = json_chunks d;
               written = takeWhile encodable chunks;
               fs1 = (files w)(tmp \<mapsto> file (utf8_bytes (concat written)))
           in if length written < length chunks
              then (Inl (Exception ''UnicodeEncodeError''), w\<lparr>files := fs1\<rparr>)
              else
                (case replace tmp cache_file fs1 of
                   Inl x \<Rightarrow> (Inl x, w\<lparr>files := fs1\<rparr>)
                 | Inr fs2 \<Rightarrow> (Inr (), w\<lparr>files := fs2\<rparr>))))"

section \<open>main: the pipeline over the file\<close>

text \<open>
  The body of \<open>for lineno, line in enumerate(fin, 1)\<close>. The locals are
  \<open>total_lines\<close>, \<open>changed_lines\<close> and \<open>last_save\<close>; \<open>lineno\<close> is always
  \<open>total_lines\<close> after its increment. Ctrl+C while the line is read leaves the turn
  before anything is done.
\<close>

definition line_step :: "env \<Rightarrow> ustr \<Rightarrow> bool \<Rightarrow> path \<Rightarrow> ustr \<Rightarrow> nat \<times> nat \<times> rat \<Rightarrow> world
    \<Rightarrow> (exn + nat \<times> nat \<times> rat) \<times> world" where
  "line_step e dest debug cache_file line locals w =
     (case locals of (total_lines, changed_lines, last_save) \<Rightarrow>
      (let total = total_lines + 1 in
       if read_interrupted e total then (Inl KeyboardInterrupt, w)
       else
         (case (if QUOTE \<in> set line then
                  (case translate_line e (rstrip_newlines line) dest debug (Some total) w of
                     (Inl x, w1) \<Rightarrow> (Inl x, w1)
                   | (Inr (new_line, chg), w1) \<Rightarrow>
                       (Inr (if chg then changed_lines + 1 else changed_lines),
                        w1\<lparr>fout := fout w1 @ new_line @ [NEWLINE]\<rparr>))
                else (Inr changed_lines, w\<lparr>fout := fout w @ line\<rparr>)) of
            (Inl x, w1) \<Rightarrow> (Inl x, w1)
          | (Inr changed, w1) \<Rightarrow>
              (let now = time_time e total in
               case (if float_sub e now last_save \<ge> CACHE_SAVE_INTERVAL_SEC then
                       (case save_cache cache_file (cache w1) w1 of
                          (Inl x, w2) \<Rightarrow> (Inl x, w2)
                        | (Inr u, w2) \<Rightarrow> (Inr now, w2))
                     else (Inr last_save, w1)) of
                 (Inl x, w2) \<Rightarrow> (Inl x, w2)
               | (Inr saved, w2) \<Rightarrow>
                   (Inr (total, changed, saved),
                    if total mod PROGRESS_EVERY_LINES = 0 \<and> \<not> debug
                    then w2\<lparr>diag := diag w2 @ [Progress total changed (length (cache w2))]\<rparr>
                    else w2)))))"

text \<open>The loop: the lines in order, until they run out or a turn raises.\<close>

fun line_loop :: "env \<Rightarrow> ustr \<Rightarrow> bool \<Rightarrow> path \<Rightarrow> ustr list \<Rightarrow> nat \<times> nat \<times> rat \<Rightarrow> world
    \<Rightarrow> (exn + nat \<times> nat \<times> rat) \<times> world" where
  "line_loop e dest debug cache_file [] locals w = (Inr locals, w)"
| "line_loop e dest debug cache_file (line # rest) locals w =
     (case line_step e dest debug cache_file line locals w of
        (Inl x, w1) \<Rightarrow> (Inl x, w1)
      | (Inr locals1, w1) \<Rightarrow> line_loop e dest debug cache_file rest locals1 w1)"

text \<open>
  The \<open>with\<close> block: the input is opened, then the output is created or emptied (so an
  output path that is the input path leaves nothing to read), the lines are processed, and
  however the block is left the output file is closed, which puts on disk what was written.
\<close>

definition process_file :: "env \<Rightarrow> path \<Rightarrow> ustr \<Rightarrow> bool \<Rightarrow> path \<Rightarrow> path \<Rightarrow> rat \<Rightarrow> world
    \<Rightarrow> (exn + nat \<times> nat \<times> rat) \<times> world" where
  "process_file e path dest debug out_path cache_file last_save w =
     (case open_r (files w path) of
        Inl x \<Rightarrow> (Inl x, w)
      | Inr bs \<Rightarrow>
          (case open_w (files w out_path) of
             Inl x \<Rightarrow> (Inl x, w)
           | Inr file \<Rightarrow>
               (let w1 = w\<lparr>files := (files w)(out_path \<mapsto> file []), fout := []\<rparr>
                in case read_input (if path = out_path then [] else bs) of
                     Inl x \<Rightarrow> (Inl x, w1)
                   | Inr text \<Rightarrow>
                       (case line_loop e dest debug cache_file (split_keepends text)
                               (0, 0, last_save) w1 of
                          (res, w2) \<Rightarrow>
                            (case write_output (fout w2) of
                               Inl x \<Rightarrow> (Inl x, w2)
                             | Inr bytes \<Rightarrow>
                                 (res, w2\<lparr>files := (files w2)(out_path \<mapsto> file bytes)\<rparr>))))))"

text \<open>
  How the process ends: \<open>main\<close> returns, \<open>sys.exit\<close> is called, or an exception nobody
  catches ends it with a traceback. \<open>OutOfModel\<close>: the cache file held JSON that is not
  an object of strings, which the program goes on with but the typed model does not follow.
\<close>

datatype exit_status = Returned | SysExit nat | Uncaught exn | OutOfModel

text \<open>
  \<open>main\<close>, from the resolved input path, destination code and debug flag; the output
  and cache paths are what \<open>choose_output_path\<close> and \<open>cache_path_for\<close> derived.
\<close>

definition main :: "env \<Rightarrow> path \<Rightarrow> ustr \<Rightarrow> bool \<Rightarrow> path \<Rightarrow> path \<Rightarrow> world \<Rightarrow> exit_status \<times> world" where
  "main e path dest debug out_path cache_file w0 =
     (case is_file (files w0) path of
        Inl x \<Rightarrow> (Uncaught x, w0)
      | Inr False \<Rightarrow> (SysExit 1, w0\<lparr>diag := diag w0 @ [FileNotFound path]\<rparr>)
      | Inr True \<Rightarrow>
        (case load_cache cache_file w0 of
           (Inl x, w1) \<Rightarrow> (Uncaught x, w1)
         | (Inr (Untyped j), w1) \<Rightarrow> (OutOfModel, w1)
         | (Inr (StrDict d), w1) \<Rightarrow>
             (let w2 = w1\<lparr>cache := d\<rparr>;
                  last_save = time_time e 0;
                  w3 = w2\<lparr>diag := diag w2 @ [Header path out_path cache_file (length d) dest]\<rparr>
              in case process_file e path dest debug out_path cache_file last_save w3 of
                   (Inl KeyboardInterrupt, w4) \<Rightarrow>
                     (let w5 = w4\<lparr>diag := diag w4 @ [InterruptedMsg]\<rparr> in
                      case save_cache cache_file (cache w5) w5 of
                        (Inl x, w6) \<Rightarrow> (Uncaught x, w6)
                      | (Inr u, w6) \<Rightarrow> (SysExit 1, w6\<lparr>diag := diag w6 @ [PartialOutputMsg out_path]\<rparr>))
                 | (Inl (Exception msg), w4) \<Rightarrow> (Uncaught (Exception msg), w4)
                 | (Inr (total_lines, changed_lines, saved), w4) \<Rightarrow>
                     (case save_cache cache_file (cache w4) w4 of
                        (Inl x, w5) \<Rightarrow> (Uncaught x, w5)
                      | (Inr u, w5) \<Rightarrow>
                          (Returned,
                           w5\<lparr>diag := diag w5 @
                                [DoneMsg out_path total_lines changed_lines (length (cache w5))]\<rparr>)))))"

text \<open>
  Scaffolding for concrete runs: a translator stub that fails \<open>k\<close> times and then
  answers, one that answers at once while Ctrl+C arrives at line \<open>n\<close>, and an empty world.
\<close>

definition failing_stub :: "nat \<Rightarrow> (ustr \<Rightarrow> ustr) \<Rightarrow> env" where
  "failing_stub k f =
     \<lparr>translate = (\<lambda>n text d. if n < k then Inl (Exception ''timed out'') else Inr (f text)),
      sleep_interrupted = (\<lambda>n. False),
      read_interrupted = (\<lambda>n. False),
      time_time = (\<lambda>n. 0),
      float_sub = (\<lambda>a b. a - b)\<rparr>"


definition fresh_world :: "filesystem \<Rightarrow> world" where
  "fresh_world fs =
     \<lparr>cache = [], calls = [], sleeps = [], diag = [], files = fs, fout = [], saves = [],
      recursion_room = 990\<rparr>"

definition text_file :: "string \<Rightarrow> node" where
  "text_file s = Regular True (map of_char s)"


section \<open>Notions the properties are stated with\<close>

text \<open>
  A line with the contents of its fragments exchanged: \<open>refill ps outs\<close> writes the
  pieces \<open>ps\<close> back, every character outside a fragment and every pair of quotes as it
  is, and the \<open>i\<close>-th text of \<open>outs\<close> between the quotes of the \<open>i\<close>-th fragment.
\<close>

fun refill :: "piece list \<Rightarrow> ustr list \<Rightarrow> ustr" where
  "refill [] outs = []"
| "refill (Lit c # ps) outs = c # refill ps outs"
| "refill (Frag inner # ps) [] = QUOTE # inner @ QUOTE # refill ps []"
| "refill (Frag inner # ps) (out # outs) = QUOTE # out @ QUOTE # refill ps outs"

fun frag_texts :: "piece list \<Rightarrow> ustr list" where
  "frag_texts [] = []"
| "frag_texts (Lit c # ps) = frag_texts ps"
| "frag_texts (Frag inner # ps) = inner # frag_texts ps"

text \<open>A mapping all of whose keys and values UTF-8 can encode (no lone surrogate).\<close>

definition dict_encodable :: "(ustr \<times> ustr) list \<Rightarrow> bool" where
  "dict_encodable d = list_all (\<lambda>kv. encodable (fst kv) \<and> encodable (snd kv)) d"

text \<open>A path at which a file can be created or replaced: nothing there, or a readable file.\<close>

definition free_or_file :: "filesystem \<Rightarrow> path \<Rightarrow> bool" where
  "free_or_file fs p = (case fs p of None \<Rightarrow> True | Some (Regular r bs) \<Rightarrow> r | _ \<Rightarrow> False)"

text \<open>
  What the loop writes for an input line when \<open>outs\<close> are the texts put in its
  fragments: a line without a quote as it is, a line with one refilled and ended by a
  newline.
\<close>

definition rewritten :: "ustr \<Rightarrow> ustr list \<Rightarrow> ustr" where
  "rewritten line outs =
     (if QUOTE \<in> set line then refill (quote_matches (rstrip_newlines line)) outs @ [NEWLINE]
      else line)"

definition fragments_of :: "ustr \<Rightarrow> ustr list" where
  "fragments_of line = frag_texts (quote_matches (rstrip_newlines line))"

text \<open>
  Lines as iterating over a text file gives them: none empty, a newline only at the end
  of a line, and at the end of every line but perhaps the last.
\<close>

fun proper_lines :: "ustr list \<Rightarrow> bool" where
  "proper_lines [] = True"
| "proper_lines [l] = (l \<noteq> [] \<and> NEWLINE \<notin> set (butlast l))"
| "proper_lines (l # ls) =
     (l \<noteq> [] \<and> NEWLINE \<notin> set (butlast l) \<and> last l = NEWLINE \<and> proper_lines ls)"

text \<open>
  A line is warm for a cache when each of its fragments is inert or a key; what the loop
  writes for a warm line is fixed by the cache alone.
\<close>

definition warm :: "(ustr \<times> ustr) list \<Rightarrow> ustr \<Rightarrow> bool" where
  "warm d line = list_all (\<lambda>inner. py_strip inner = [] \<or> map_of d inner \<noteq> None) (fragments_of line)"

definition cached_text :: "(ustr \<times> ustr) list \<Rightarrow> ustr \<Rightarrow> ustr" where
  "cached_text d inner =
     (if py_strip inner = [] then inner
      else (case map_of d inner of Some out \<Rightarrow> out | None \<Rightarrow> inner))"

definition cached_line :: "(ustr \<times> ustr) list \<Rightarrow> ustr \<Rightarrow> ustr" where
  "cached_line d line = rewritten line (map (cached_text d) (fragments_of line))"

text \<open>A cache location that can take a flush: not a directory, its temporary sibling free.\<close>

definition flushable :: "path \<Rightarrow> filesystem \<Rightarrow> bool" where
  "flushable cache_file fs = (free_or_file fs (tmp_path cache_file) \<and> fs cache_file \<noteq> Some Directory)"

text \<open>The world after the attempts \<open>as\<close> have all failed with the messages \<open>msg\<close>.\<close>

definition after_failures :: "world \<Rightarrow> ustr \<Rightarrow> ustr \<Rightarrow> (nat \<Rightarrow> string) \<Rightarrow> nat list \<Rightarrow> world" where
  "after_failures w text d msg as =
     w\<lparr>calls := calls w @ replicate (length as) (text, d),
       diag := diag w @ map (\<lambda>i. RetryWarn (as ! i + 1) RETRY_LIMIT (msg i) (BASE_BACKOFF * 2 ^ (as ! i))) [0..<length as],
       sleeps := sleeps w @ map (\<lambda>a. BASE_BACKOFF * 2 ^ a) as\<rparr>"


definition warm_world :: "(ustr \<times> ustr) list \<Rightarrow> world" where
  "warm_world d = (fresh_world Map.empty)\<lparr>cache := d\<rparr>"

section \<open>Retry and backoff\<close>

lemma attempt_loop_failures:
  assumes "\<forall>i<length as. translate e (length (calls w) + i) text d = Inl (Exception (msg i))"
    and "\<forall>i<length as. \<not> sleep_interrupted e (length (sleeps w) + i)"
  shows "attempt_loop e text d (as @ rest) w = attempt_loop e text d rest (after_failures w text d msg as)"
  using assms
proof (induction as arbitrary: w msg)
  case Nil
  then show ?case by (simp add: after_failures_def)
next
  case (Cons a as)
  let ?w3 = "w\<lparr>calls := calls w @ [(text, d)],
               diag := diag w @ [RetryWarn (a + 1) RETRY_LIMIT (msg 0) (BASE_BACKOFF * 2 ^ a)],
               sleeps := sleeps w @ [BASE_BACKOFF * 2 ^ a]\<rparr>"
  from Cons.prems(1) have h0: "translate e (length (calls w)) text d = Inl (Exception (msg 0))"
    by force
  from Cons.prems(2) have s0: "\<not> sleep_interrupted e (length (sleeps w))" by force
  have p1: "\<forall>i<length as. translate e (length (calls ?w3) + i) text d = Inl (Exception ((msg \<circ> Suc) i))"
    using Cons.prems(1) by auto
  have p2: "\<forall>i<length as. \<not> sleep_interrupted e (length (sleeps ?w3) + i)"
    using Cons.prems(2) by auto
  have step: "attempt_loop e text d ((a # as) @ rest) w = attempt_loop e text d (as @ rest) ?w3"
    using h0 s0 by (simp add: Let_def)
  have eq: "after_failures ?w3 text d (msg \<circ> Suc) as = after_failures w text d msg (a # as)"
    by (simp add: after_failures_def replicate_append_same map_upt_Suc del: upt_Suc)
  note step
  also have "attempt_loop e text d (as @ rest) ?w3
      = attempt_loop e text d rest (after_failures ?w3 text d (msg \<circ> Suc) as)"
    by (rule Cons.IH[OF p1 p2])
  finally show ?case unfolding eq .
qed


text \<open>
  Claim C2. Against a translation capability that fails \<open>k\<close> times and then succeeds:
  when \<open>k < RETRY_LIMIT\<close>, \<open>translate_text_frag\<close> returns the successful translation
  after exactly \<open>k\<close> waits of \<open>BASE_BACKOFF * 2 ^ i\<close> seconds, \<open>i = 0, ..., k - 1\<close>; when
  \<open>k \<ge> RETRY_LIMIT\<close>, it returns the original text after exactly \<open>RETRY_LIMIT\<close> waits,
  with one warning for each failed attempt and a last warning that it gives up. The cache
  and the files are not touched either way.
\<close>

theorem translate_text_frag_retry_backoff:
  assumes fails: "\<forall>i<min k RETRY_LIMIT. translate e (length (calls w) + i) text d = Inl (Exception (msg i))"
    and succeeds: "k < RETRY_LIMIT \<longrightarrow> translate e (length (calls w) + k) text d = Inr r"
    and waits: "\<forall>i<min k RETRY_LIMIT. \<not> sleep_interrupted e (length (sleeps w) + i)"
    and run: "translate_text_frag e text d w = (res, w')"
  shows "(k < RETRY_LIMIT \<longrightarrow>
            res = Inr r
          \<and> sleeps w' = sleeps w @ map (\<lambda>i. BASE_BACKOFF * 2 ^ i) [0..<k]
          \<and> diag w' = diag w @ map (\<lambda>i. RetryWarn (i + 1) RETRY_LIMIT (msg i) (BASE_BACKOFF * 2 ^ i)) [0..<k]
          \<and> calls w' = calls w @ replicate (k + 1) (text, d))
       \<and> (RETRY_LIMIT \<le> k \<longrightarrow>
            res = Inr text
          \<and> sleeps w' = sleeps w @ map (\<lambda>i. BASE_BACKOFF * 2 ^ i) [0..<RETRY_LIMIT]
          \<and> diag w' = diag w @ map (\<lambda>i. RetryWarn (i + 1) RETRY_LIMIT (msg i) (BASE_BACKOFF * 2 ^ i)) [0..<RETRY_LIMIT]
                        @ [GiveUpWarn]
          \<and> calls w' = calls w @ replicate RETRY_LIMIT (text, d))
       \<and> cache w' = cache w \<and> files w' = files w"
proof (cases "k < RETRY_LIMIT")
  case True
  have split: "[0..<RETRY_LIMIT] = [0..<k] @ k # [Suc k..<RETRY_LIMIT]"
    using True by (metis upt_conv_Cons upt_add_eq_append le_add_diff_inverse less_imp_le_nat zero_le)
  let ?w = "after_failures w text d msg [0..<k]"
  have f: "\<forall>i<length [0..<k]. translate e (length (calls w) + i) text d = Inl (Exception (msg i))"
    using fails True by simp
  have s: "\<forall>i<length [0..<k]. \<not> sleep_interrupted e (length (sleeps w) + i)"
    using waits True by simp
  have "attempt_loop e text d [0..<RETRY_LIMIT] w = attempt_loop e text d (k # [Suc k..<RETRY_LIMIT]) ?w"
    unfolding split by (rule attempt_loop_failures[OF f s])
  also have "\<dots> = (Inr (Some r), ?w\<lparr>calls := calls ?w @ [(text, d)]\<rparr>)"
    using succeeds True by (simp add: after_failures_def Let_def)
  finally have "translate_text_frag e text d w = (Inr r, ?w\<lparr>calls := calls ?w @ [(text, d)]\<rparr>)"
    by (simp add: translate_text_frag_def)
  with run have "res = Inr r" "w' = ?w\<lparr>calls := calls ?w @ [(text, d)]\<rparr>" by simp_all
  then show ?thesis using True
    by (simp add: after_failures_def replicate_append_same cong: map_cong)
next
  case False
  let ?w = "after_failures w text d msg [0..<RETRY_LIMIT]"
  have f: "\<forall>i<length [0..<RETRY_LIMIT]. translate e (length (calls w) + i) text d = Inl (Exception (msg i))"
    using fails False by simp
  have s: "\<forall>i<length [0..<RETRY_LIMIT]. \<not> sleep_interrupted e (length (sleeps w) + i)"
    using waits False by simp
  have "attempt_loop e text d ([0..<RETRY_LIMIT] @ []) w = attempt_loop e text d [] ?w"
    by (rule attempt_loop_failures[OF f s])
  then have "translate_text_frag e text d w = (Inr text, ?w\<lparr>diag := diag ?w @ [GiveUpWarn]\<rparr>)"
    by (simp add: translate_text_frag_def)
  with run have "res = Inr text" "w' = ?w\<lparr>diag := diag ?w @ [GiveUpWarn]\<rparr>" by simp_all
  then show ?thesis using False
    by (simp add: after_failures_def cong: map_cong)
qed


theorem translate_text_frag_retry_backoff_witness:
  "fst (translate_text_frag (failing_stub 2 (\<lambda>t. ustr_of ''hola'')) (ustr_of ''hello'') (ustr_of ''es'') (fresh_world Map.empty))
     = Inr (ustr_of ''hola'')
   \<and> sleeps (snd (translate_text_frag (failing_stub 2 (\<lambda>t. ustr_of ''hola'')) (ustr_of ''hello'') (ustr_of ''es'') (fresh_world Map.empty)))
     = [3 / 4, 3 / 2]
   \<and> fst (translate_text_frag (failing_stub 7 (\<lambda>t. ustr_of ''hola'')) (ustr_of ''hello'') (ustr_of ''es'') (fresh_world Map.empty))
     = Inr (ustr_of ''hello'')
   \<and> sleeps (snd (translate_text_frag (failing_stub 7 (\<lambda>t. ustr_of ''hola'')) (ustr_of ''hello'') (ustr_of ''es'') (fresh_world Map.empty)))
     = [3 / 4, 3 / 2, 3, 6, 12]
   \<and> diag (snd (translate_text_frag (failing_stub 7 (\<lambda>t. ustr_of ''hola'')) (ustr_of ''hello'') (ustr_of ''es'') (fresh_world Map.empty)))
     = [RetryWarn 1 5 ''timed out'' (3 / 4), RetryWarn 2 5 ''timed out'' (3 / 2), RetryWarn 3 5 ''timed out'' 3,
        RetryWarn 4 5 ''timed out'' 6, RetryWarn 5 5 ''timed out'' 12, GiveUpWarn]"
proof -
  let ?t = "ustr_of ''hello''" and ?d = "ustr_of ''es''" and ?w = "fresh_world Map.empty"
  let ?e2 = "failing_stub 2 (\<lambda>t. ustr_of ''hola'')" and ?e7 = "failing_stub 7 (\<lambda>t. ustr_of ''hola'')"
  have up5: "[0..<5] = [0, 1, 2, 3, 4]" and up2: "[0..<2] = [0, 1]" by (simp_all add: upt_rec)
  have a: "\<forall>i<min 2 RETRY_LIMIT. translate ?e2 (length (calls ?w) + i) ?t ?d = Inl (Exception ((\<lambda>i. ''timed out'') i))"
    by (simp add: failing_stub_def fresh_world_def RETRY_LIMIT_def)
  have b: "2 < RETRY_LIMIT \<longrightarrow> translate ?e2 (length (calls ?w) + 2) ?t ?d = Inr (ustr_of ''hola'')"
    by (simp add: failing_stub_def fresh_world_def)
  have c: "\<forall>i<min 2 RETRY_LIMIT. \<not> sleep_interrupted ?e2 (length (sleeps ?w) + i)"
    by (simp add: failing_stub_def)
  have a7: "\<forall>i<min 7 RETRY_LIMIT. translate ?e7 (length (calls ?w) + i) ?t ?d = Inl (Exception ((\<lambda>i. ''timed out'') i))"
    by (simp add: failing_stub_def fresh_world_def RETRY_LIMIT_def)
  have b7: "7 < RETRY_LIMIT \<longrightarrow> translate ?e7 (length (calls ?w) + 7) ?t ?d = Inr (ustr_of ''hola'')"
    by (simp add: RETRY_LIMIT_def)
  have c7: "\<forall>i<min 7 RETRY_LIMIT. \<not> sleep_interrupted ?e7 (length (sleeps ?w) + i)"
    by (simp add: failing_stub_def)
  show ?thesis
    using translate_text_frag_retry_backoff[OF a b c surjective_pairing]
          translate_text_frag_retry_backoff[OF a7 b7 c7 surjective_pairing]
    by (simp add: RETRY_LIMIT_def BASE_BACKOFF_def fresh_world_def up5 up2)
qed

section \<open>What a fragment, and a line, may change\<close>

lemma attempt_loop_frame:
  "attempt_loop e t d as w = (r, w') \<Longrightarrow>
     cache w' = cache w \<and> files w' = files w \<and> fout w' = fout w \<and> saves w' = saves w
     \<and> (\<exists>n. calls w' = calls w @ replicate n (t, d))"
proof (induction as arbitrary: w)
  case Nil
  then show ?case by auto
next
  case (Cons a as)
  show ?case
  proof (cases "translate e (length (calls w)) t d")
    case (Inr x)
    with Cons.prems show ?thesis
      by (auto simp: Let_def intro: exI[of _ 1])
  next
    case (Inl x)
    show ?thesis
    proof (cases x)
      case KeyboardInterrupt
      with Inl Cons.prems show ?thesis by (auto simp: Let_def intro: exI[of _ 1])
    next
      case (Exception msg)
      let ?w3 = "w\<lparr>calls := calls w @ [(t, d)],
                   diag := diag w @ [RetryWarn (a + 1) RETRY_LIMIT msg (BASE_BACKOFF * 2 ^ a)],
                   sleeps := sleeps w @ [BASE_BACKOFF * 2 ^ a]\<rparr>"
      show ?thesis
      proof (cases "sleep_interrupted e (length (sleeps w))")
        case True
        with Inl Exception Cons.prems show ?thesis by (auto simp: Let_def intro: exI[of _ 1])
      next
        case False
        with Inl Exception Cons.prems have "attempt_loop e t d as ?w3 = (r, w')"
          by (simp add: Let_def)
        from Cons.IH[OF this] obtain n where
          "cache w' = cache w" "files w' = files w" "fout w' = fout w" "saves w' = saves w"
          "calls w' = (calls w @ [(t, d)]) @ replicate n (t, d)" by auto
        then show ?thesis
          by (auto intro!: exI[of _ "Suc n"] simp: replicate_app_Cons_same)
      qed
    qed
  qed
qed

lemma translate_text_frag_frame:
  assumes "translate_text_frag e t d w = (r, w')"
  shows "cache w' = cache w \<and> files w' = files w \<and> fout w' = fout w \<and> saves w' = saves w
     \<and> (\<exists>n. calls w' = calls w @ replicate n (t, d))"
proof -
  obtain r0 w0 where al: "attempt_loop e t d [0..<RETRY_LIMIT] w = (r0, w0)"
    by (cases "attempt_loop e t d [0..<RETRY_LIMIT] w")
  from attempt_loop_frame[OF al] have fr:
    "cache w0 = cache w \<and> files w0 = files w \<and> fout w0 = fout w \<and> saves w0 = saves w
     \<and> (\<exists>n. calls w0 = calls w @ replicate n (t, d))" .
  from assms al have "w' = w0 \<or> w' = w0\<lparr>diag := diag w0 @ [GiveUpWarn]\<rparr>"
    by (auto simp: translate_text_frag_def split: sum.splits option.splits)
  with fr show ?thesis by auto
qed

lemma update_absent: "map_of al k = None \<Longrightarrow> AList.update k v al = al @ [(k, v)]"
  by (induction al) (auto split: if_splits)

lemma repl_inert:
  "py_strip inner = [] \<Longrightarrow>
   repl e dest debug lineno inner changed w = (Inr (QUOTE # inner @ [QUOTE], changed), w)"
  by (simp add: repl_def)

lemma repl_hit:
  "py_strip inner \<noteq> [] \<Longrightarrow> map_of (cache w) inner = Some out \<Longrightarrow>
   repl e dest debug lineno inner changed w =
     (Inr (QUOTE # out @ [QUOTE], changed \<or> out \<noteq> inner),
      if debug then w\<lparr>diag := diag w @ [DebugTrace lineno ''cache'' (trunc inner) (trunc out)]\<rparr> else w)"
  by (simp add: repl_def)

lemma repl_miss:
  assumes "py_strip inner \<noteq> []" and "map_of (cache w) inner = None"
    and "translate_text_frag e inner dest w = (tr, w1)"
  shows "repl e dest debug lineno inner changed w =
     (case tr of
        Inl x \<Rightarrow> (Inl x, w1)
      | Inr out \<Rightarrow>
          (Inr (QUOTE # out @ [QUOTE], changed \<or> out \<noteq> inner),
           if debug
           then w1\<lparr>cache := cache w1 @ [(inner, out)],
                   diag := diag w1 @ [DebugTrace lineno ''google'' (trunc inner) (trunc out)]\<rparr>
           else w1\<lparr>cache := cache w1 @ [(inner, out)]\<rparr>))"
proof -
  from translate_text_frag_frame[OF assms(3)] have "cache w1 = cache w" by simp
  with assms(2) have "AList.update inner out (cache w1) = cache w1 @ [(inner, out)]" for out
    by (simp add: update_absent)
  with assms show ?thesis
    by (simp add: repl_def split: sum.splits)
qed

lemma repl_effects:
  assumes "repl e dest debug lineno inner changed w = (r, w')"
  shows "files w' = files w \<and> fout w' = fout w \<and> saves w' = saves w
     \<and> (\<exists>n. calls w' = calls w @ replicate n (inner, dest)
             \<and> (0 < n \<longrightarrow> py_strip inner \<noteq> [] \<and> map_of (cache w) inner = None))
     \<and> (cache w' = cache w
        \<or> (\<exists>out. py_strip inner \<noteq> [] \<and> map_of (cache w) inner = None
                  \<and> r = Inr (QUOTE # out @ [QUOTE], changed \<or> out \<noteq> inner)
                  \<and> cache w' = cache w @ [(inner, out)]))"
proof (cases "py_strip inner = []")
  case True
  with assms show ?thesis by (auto simp: repl_inert intro: exI[of _ 0])
next
  case ni: False
  show ?thesis
  proof (cases "map_of (cache w) inner")
    case (Some out)
    with ni assms show ?thesis
      by (auto simp: repl_hit split: if_splits intro: exI[of _ 0])
  next
    case None
    obtain tr w1 where t: "translate_text_frag e inner dest w = (tr, w1)"
      by (cases "translate_text_frag e inner dest w")
    from translate_text_frag_frame[OF t] obtain n where fr:
      "cache w1 = cache w" "files w1 = files w" "fout w1 = fout w" "saves w1 = saves w"
      "calls w1 = calls w @ replicate n (inner, dest)" by auto
    show ?thesis
    proof (cases tr)
      case (Inl x)
      with assms repl_miss[OF ni None t, of debug lineno changed] have "w' = w1" by simp
      with fr ni None show ?thesis by auto
    next
      case (Inr out)
      with assms repl_miss[OF ni None t, of debug lineno changed]
      have "r = Inr (QUOTE # out @ [QUOTE], changed \<or> out \<noteq> inner)"
        and "w' = (if debug
           then w1\<lparr>cache := cache w1 @ [(inner, out)],
                   diag := diag w1 @ [DebugTrace lineno ''google'' (trunc inner) (trunc out)]\<rparr>
           else w1\<lparr>cache := cache w1 @ [(inner, out)]\<rparr>)" by simp_all
      with fr ni None show ?thesis by auto
    qed
  qed
qed


lemma find_close_Some:
  "find_close cs = Some (inner, rest) \<Longrightarrow>
     cs = inner @ QUOTE # rest \<and> QUOTE \<notin> set inner \<and> NEWLINE \<notin> set inner"
proof (induction cs arbitrary: inner)
  case Nil
  then show ?case by simp
next
  case (Cons c cs)
  then show ?case
    by (cases "find_close cs") (auto split: if_splits)
qed

lemma refill_own: "refill (quote_matches line) (frag_texts (quote_matches line)) = line"
proof (induction line rule: quote_matches.induct)
  case 1
  then show ?case by simp
next
  case (2 c cs)
  show ?case
  proof (cases "c = QUOTE")
    case False
    with 2 show ?thesis by simp
  next
    case q: True
    show ?thesis
    proof (cases "find_close cs")
      case None
      with q 2 show ?thesis by simp
    next
      case (Some x)
      obtain inner rest where x: "x = (inner, rest)" by (cases x)
      from Some x find_close_Some have "cs = inner @ QUOTE # rest" by blast
      with q Some x 2(2)[OF q Some x[symmetric]] show ?thesis by simp
    qed
  qed
qed

lemma frag_in_matches:
  "Frag inner \<in> set (quote_matches line) \<Longrightarrow>
     QUOTE \<notin> set inner \<and> NEWLINE \<notin> set inner \<and> set inner \<subseteq> set line"
proof (induction line rule: quote_matches.induct)
  case 1
  then show ?case by simp
next
  case (2 c cs)
  show ?case
  proof (cases "c = QUOTE")
    case False
    with 2 show ?thesis by auto
  next
    case q: True
    show ?thesis
    proof (cases "find_close cs")
      case None
      with q 2 show ?thesis by auto
    next
      case (Some x)
      obtain i rest where x: "x = (i, rest)" by (cases x)
      from Some x find_close_Some have cs: "cs = i @ QUOTE # rest" "QUOTE \<notin> set i" "NEWLINE \<notin> set i"
        by blast+
      from "2.prems" q Some x have "inner = i \<or> Frag inner \<in> set (quote_matches rest)" by simp
      then show ?thesis
      proof
        assume "inner = i"
        with cs show ?thesis by auto
      next
        assume "Frag inner \<in> set (quote_matches rest)"
        from "2.IH"(2)[OF q Some x[symmetric] this] cs(1) show ?thesis by auto
      qed
    qed
  qed
qed

lemma map_of_append_None: "map_of (xs @ ys) k = None \<longleftrightarrow> map_of xs k = None \<and> map_of ys k = None"
  by (simp add: map_add_None)

lemma sub_pieces_effects:
  "sub_pieces e dest debug lineno ps ch w = (r, w') \<Longrightarrow>
     files w' = files w \<and> fout w' = fout w \<and> saves w' = saves w
     \<and> (\<exists>cs. calls w' = calls w @ cs
            \<and> (\<forall>c\<in>set cs. snd c = dest \<and> py_strip (fst c) \<noteq> [] \<and> map_of (cache w) (fst c) = None
                            \<and> Frag (fst c) \<in> set ps))
     \<and> (\<exists>new. cache w' = cache w @ new
            \<and> (\<forall>kv\<in>set new. py_strip (fst kv) \<noteq> [] \<and> map_of (cache w) (fst kv) = None
                             \<and> Frag (fst kv) \<in> set ps))"
proof (induction ps arbitrary: ch w r w')
  case Nil
  then show ?case by simp
next
  case (Cons p ps)
  show ?case
  proof (cases p)
    case (Lit c)
    obtain r0 w0 where s: "sub_pieces e dest debug lineno ps ch w = (r0, w0)"
      by (cases "sub_pieces e dest debug lineno ps ch w")
    with Cons.prems Lit have "w' = w0" by (auto split: sum.splits)
    with Cons.IH[OF s] Lit show ?thesis by auto
  next
    case (Frag inner)
    obtain r1 w1 where rp: "repl e dest debug lineno inner ch w = (r1, w1)"
      by (cases "repl e dest debug lineno inner ch w")
    from repl_effects[OF rp] obtain n where e1:
      "files w1 = files w" "fout w1 = fout w" "saves w1 = saves w"
      "calls w1 = calls w @ replicate n (inner, dest)"
      "0 < n \<longrightarrow> py_strip inner \<noteq> [] \<and> map_of (cache w) inner = None"
      and c1: "cache w1 = cache w
        \<or> (\<exists>out. py_strip inner \<noteq> [] \<and> map_of (cache w) inner = None \<and> cache w1 = cache w @ [(inner, out)])"
      by auto
    from c1 obtain new1 where n1: "cache w1 = cache w @ new1"
      "\<forall>kv\<in>set new1. py_strip (fst kv) \<noteq> [] \<and> map_of (cache w) (fst kv) = None \<and> fst kv = inner"
      by auto
    show ?thesis
    proof (cases r1)
      case (Inl x)
      with Cons.prems Frag rp have "w' = w1" by simp
      with e1 n1 Frag show ?thesis
        by (auto intro!: exI[of _ "replicate n (inner, dest)"] exI[of _ new1])
    next
      case (Inr y)
      obtain out ch1 where y: "y = (out, ch1)" by (cases y)
      obtain r2 w2 where s: "sub_pieces e dest debug lineno ps ch1 w1 = (r2, w2)"
        by (cases "sub_pieces e dest debug lineno ps ch1 w1")
      with Cons.prems Frag rp Inr y have "w' = w2" by (auto split: sum.splits)
      from Cons.IH[OF s] obtain cs new where e2:
        "files w2 = files w1" "fout w2 = fout w1" "saves w2 = saves w1"
        "calls w2 = calls w1 @ cs"
        "\<forall>c\<in>set cs. snd c = dest \<and> py_strip (fst c) \<noteq> [] \<and> map_of (cache w1) (fst c) = None
                            \<and> Frag (fst c) \<in> set ps"
        "cache w2 = cache w1 @ new"
        "\<forall>kv\<in>set new. py_strip (fst kv) \<noteq> [] \<and> map_of (cache w1) (fst kv) = None
                             \<and> Frag (fst kv) \<in> set ps"
        by blast
      have a: "calls w' = calls w @ (replicate n (inner, dest) @ cs)"
        using e1 e2 \<open>w' = w2\<close> by simp
      have b: "\<forall>c\<in>set (replicate n (inner, dest) @ cs). snd c = dest \<and> py_strip (fst c) \<noteq> []
            \<and> map_of (cache w) (fst c) = None \<and> Frag (fst c) \<in> set (p # ps)"
        using e1(5) e2(5) n1(1) Frag by (auto simp: map_of_append_None)
      have c: "cache w' = cache w @ (new1 @ new)"
        using n1 e2 \<open>w' = w2\<close> by simp
      have d: "\<forall>kv\<in>set (new1 @ new). py_strip (fst kv) \<noteq> [] \<and> map_of (cache w) (fst kv) = None
                             \<and> Frag (fst kv) \<in> set (p # ps)"
        using n1 e2(7) Frag by (auto simp: map_of_append_None)
      from a b c d e1 e2 \<open>w' = w2\<close> show ?thesis by (intro conjI exI[of _ "replicate n (inner, dest) @ cs"] exI[of _ "new1 @ new"]) simp_all
    qed
  qed
qed

lemma sub_pieces_refill:
  "sub_pieces e dest debug lineno ps ch w = (Inr (out, ch'), w') \<Longrightarrow>
     \<exists>outs. length outs = length (frag_texts ps) \<and> out = refill ps outs"
proof (induction ps arbitrary: ch w out ch' w')
  case Nil
  then show ?case by simp
next
  case (Cons p ps)
  show ?case
  proof (cases p)
    case (Lit c)
    with Cons.prems obtain out0 where
      s: "sub_pieces e dest debug lineno ps ch w = (Inr (out0, ch'), w')" and o: "out = c # out0"
      by (auto split: sum.splits prod.splits)
    from Cons.IH[OF s] o Lit show ?thesis by auto
  next
    case (Frag inner)
    from Cons.prems Frag obtain r ch1 w1 out0 where
      rp: "repl e dest debug lineno inner ch w = (Inr (r, ch1), w1)"
      and s: "sub_pieces e dest debug lineno ps ch1 w1 = (Inr (out0, ch'), w')"
      and o: "out = r @ out0"
      by (auto split: sum.splits prod.splits)
    from rp have "\<exists>t. r = QUOTE # t @ [QUOTE]"
      by (auto simp: repl_def Let_def split: if_splits option.splits sum.splits prod.splits)
    then obtain t where t: "r = QUOTE # t @ [QUOTE]" ..
    from Cons.IH[OF s] obtain outs where "length outs = length (frag_texts ps)" "out0 = refill ps outs"
      by blast
    with o t Frag show ?thesis
      by (intro exI[of _ "t # outs"]) simp
  qed
qed

lemma sub_pieces_append:
  "sub_pieces e dest debug lineno (ps1 @ ps2) ch w =
     (case sub_pieces e dest debug lineno ps1 ch w of
        (Inl x, w1) \<Rightarrow> (Inl x, w1)
      | (Inr (o1, ch1), w1) \<Rightarrow>
          (case sub_pieces e dest debug lineno ps2 ch1 w1 of
             (Inl x, w2) \<Rightarrow> (Inl x, w2)
           | (Inr (o2, ch2), w2) \<Rightarrow> (Inr (o1 @ o2, ch2), w2)))"
proof (induction ps1 arbitrary: ch w)
  case Nil
  then show ?case by (simp split: prod.splits sum.splits)
next
  case (Cons p ps1)
  show ?case
  proof (cases p)
    case (Lit c)
    then show ?thesis
      by (simp add: Cons.IH split: prod.splits sum.splits)
  next
    case (Frag inner)
    then show ?thesis
      by (simp add: Cons.IH split: prod.splits sum.splits)
  qed
qed

lemma sub_pieces_lits:
  "sub_pieces e dest debug lineno (map Lit cs) ch w = (Inr (cs, ch), w)"
  by (induction cs) simp_all

text \<open>
  Claim C7. A fragment whose content is empty or all white space is emitted with its
  quotes as it stands, and the world (translator calls, cache, files) is as before: in a
  line it is processed exactly as the literal text of its quotes and content would be. No
  line processing ever sends such a text to the translator or adds it to the cache.
\<close>

theorem inert_fragment_untouched:
  assumes "py_strip inner = []"
  shows "repl e dest debug lineno inner changed w = (Inr (QUOTE # inner @ [QUOTE], changed), w)
     \<and> sub_pieces e dest debug lineno (ps1 @ Frag inner # ps2) changed w
         = sub_pieces e dest debug lineno (ps1 @ map Lit (QUOTE # inner @ [QUOTE]) @ ps2) changed w
     \<and> (translate_line e line dest debug lineno w = (res, w') \<longrightarrow>
          inner \<notin> fst ` set (drop (length (calls w)) (calls w'))
          \<and> (inner \<in> fst ` set (cache w') \<longrightarrow> inner \<in> fst ` set (cache w)))"
proof (intro conjI impI)
  show r: "repl e dest debug lineno inner changed w = (Inr (QUOTE # inner @ [QUOTE], changed), w)"
    using assms by (rule repl_inert)
  have eq: "sub_pieces e dest debug lineno (Frag inner # ps2) c v
      = sub_pieces e dest debug lineno (map Lit (QUOTE # inner @ [QUOTE]) @ ps2) c v" for c v
    unfolding sub_pieces_append[of _ _ _ _ "map Lit (QUOTE # inner @ [QUOTE])"] sub_pieces_lits
    using assms by (simp add: repl_inert split: prod.splits sum.splits)
  show "sub_pieces e dest debug lineno (ps1 @ Frag inner # ps2) changed w
         = sub_pieces e dest debug lineno (ps1 @ map Lit (QUOTE # inner @ [QUOTE]) @ ps2) changed w"
    by (simp only: sub_pieces_append[of _ _ _ _ ps1] eq)
next
  assume run: "translate_line e line dest debug lineno w = (res, w')"
  have eff: "(\<exists>cs. calls w' = calls w @ cs \<and> (\<forall>c\<in>set cs. py_strip (fst c) \<noteq> []))
     \<and> (\<exists>new. cache w' = cache w @ new \<and> (\<forall>kv\<in>set new. py_strip (fst kv) \<noteq> []))"
  proof (cases "QUOTE \<in> set line")
    case False
    with run have "w' = w" by (simp add: translate_line_def)
    then show ?thesis by simp
  next
    case True
    with run have "sub_pieces e dest debug lineno (quote_matches line) False w = (res, w')"
      by (simp add: translate_line_def)
    from sub_pieces_effects[OF this] show ?thesis by blast
  qed
  then obtain cs new where cs: "calls w' = calls w @ cs" "\<forall>c\<in>set cs. py_strip (fst c) \<noteq> []"
    and new: "cache w' = cache w @ new" "\<forall>kv\<in>set new. py_strip (fst kv) \<noteq> []" by blast
  from cs assms show "inner \<notin> fst ` set (drop (length (calls w)) (calls w'))" by auto
  assume "inner \<in> fst ` set (cache w')"
  with new assms show "inner \<in> fst ` set (cache w)" by auto
qed

theorem inert_fragment_untouched_witness:
  "py_strip [32, 9] = []
   \<and> repl (failing_stub 0 (\<lambda>t. ustr_of ''hola'')) (ustr_of ''es'') False None [32, 9] False (fresh_world Map.empty)
       = (Inr ([34, 32, 9, 34], False), fresh_world Map.empty)
   \<and> [32, 9] \<notin> fst ` set (drop (length (calls (fresh_world Map.empty)))
        (calls (snd (translate_line (failing_stub 0 (\<lambda>t. ustr_of ''hola'')) (ustr_of ''a \" \" b'')
                      (ustr_of ''es'') False None (fresh_world Map.empty)))))"
proof -
  have i: "py_strip [32, 9] = []"
    by (simp add: py_strip_def py_isspace_def)
  show ?thesis
    using i inert_fragment_untouched[OF i, of "failing_stub 0 (\<lambda>t. ustr_of ''hola'')" "ustr_of ''es''" False None
        False "fresh_world Map.empty" "[]" "[]" "ustr_of ''a \" \" b''"
        "fst (translate_line (failing_stub 0 (\<lambda>t. ustr_of ''hola'')) (ustr_of ''a \" \" b'')
                      (ustr_of ''es'') False None (fresh_world Map.empty))"
        "snd (translate_line (failing_stub 0 (\<lambda>t. ustr_of ''hola'')) (ustr_of ''a \" \" b'')
                      (ustr_of ''es'') False None (fresh_world Map.empty))"]
    by (simp add: QUOTE_def)
qed

text \<open>
  Claim C4, as amended. For an occurrence of a fragment whose exact text is a key of the
  cache, the translator is not called, nothing waits and the cache stays as it is. When
  the fragment is not inert, the cached value is what stands between the quotes; in debug
  mode the trace is printed before the value is returned, so there the occurrence
  either returns the cached value or ends by the exception of that \<open>print\<close>. An inert
  fragment (empty or white space only) is emitted unchanged even when its text is a key,
  since the test for inertness comes before the look-up.
\<close>

theorem cache_hit_precedence:
  assumes hit: "map_of (cache w) inner = Some out"
    and run: "repl e dest debug lineno inner changed w = (res, w')"
  shows "calls w' = calls w \<and> cache w' = cache w \<and> sleeps w' = sleeps w
     \<and> (py_strip inner \<noteq> [] \<and> \<not> debug \<longrightarrow>
          res = Inr (QUOTE # out @ [QUOTE], changed \<or> out \<noteq> inner) \<and> w' = w)
     \<and> (py_strip inner \<noteq> [] \<and> debug \<longrightarrow>
          res = Inr (QUOTE # out @ [QUOTE], changed \<or> out \<noteq> inner) \<or> (\<exists>m. res = Inl (Exception m)))
     \<and> (py_strip inner = [] \<longrightarrow> res = Inr (QUOTE # inner @ [QUOTE], changed) \<and> w' = w)"
proof (cases "py_strip inner = []")
  case True
  with run show ?thesis by (simp add: repl_inert)
next
  case False
  with run hit show ?thesis by (auto simp: repl_hit split: if_splits)
qed

theorem cache_hit_precedence_witness:
  "calls (snd (repl (failing_stub 0 id) (ustr_of ''es'') False None (ustr_of ''Engine Speed'') False
                (warm_world [(ustr_of ''Engine Speed'', ustr_of ''Velocidad del motor'')]))) = []
   \<and> fst (repl (failing_stub 0 id) (ustr_of ''es'') False None (ustr_of ''Engine Speed'') False
                (warm_world [(ustr_of ''Engine Speed'', ustr_of ''Velocidad del motor'')]))
       = Inr (ustr_of ''\"Velocidad del motor\"'', True)
   \<and> fst (repl (failing_stub 0 id) (ustr_of ''es'') False None [32] False (warm_world [([32], ustr_of ''x'')]))
       = Inr ([34, 32, 34], False)"
proof -
  let ?w = "warm_world [(ustr_of ''Engine Speed'', ustr_of ''Velocidad del motor'')]"
  let ?v = "warm_world [([32], ustr_of ''x'')]"
  have h1: "map_of (cache ?w) (ustr_of ''Engine Speed'') = Some (ustr_of ''Velocidad del motor'')"
    by (simp add: warm_world_def)
  have h2: "map_of (cache ?v) [32] = Some (ustr_of ''x'')"
    by (simp add: warm_world_def)
  have n1: "py_strip (ustr_of ''Engine Speed'') \<noteq> []"
    by (simp add: py_strip_def py_isspace_def ustr_of_def)
  have n2: "py_strip [32] = []"
    by (simp add: py_strip_def py_isspace_def)
  show ?thesis
    using cache_hit_precedence[OF h1 surjective_pairing, of "failing_stub 0 id" "ustr_of ''es''" False None False]
      cache_hit_precedence[OF h2 surjective_pairing, of "failing_stub 0 id" "ustr_of ''es''" False None False]
      n1 n2
    by (simp add: warm_world_def fresh_world_def ustr_of_def QUOTE_def)
qed

section \<open>UTF-8 and JSON round trips\<close>

lemma split_64: "(c::nat) div 64 * 64 + c mod 64 = c"
  by simp

lemma scale_64: "(a * 64 + b) * 64 = a * 4096 + b * (64::nat)"
  by (simp add: algebra_simps)

lemma scale_4096: "(a * 64 + b) * 4096 = a * 262144 + b * (4096::nat)"
  by (simp add: algebra_simps)

lemma split_4096: "(c::nat) div 4096 * 4096 + c div 64 mod 64 * 64 + c mod 64 = c"
proof -
  define q where "q = c div 64"
  have 1: "q div 64 * 64 + q mod 64 = q" by simp
  have 2: "c div 4096 = q div 64" unfolding q_def by (simp add: div_mult2_eq)
  have "q div 64 * 4096 + q mod 64 * 64 = (q div 64 * 64 + q mod 64) * 64"
    by (rule scale_64[symmetric])
  also have "\<dots> = q * 64" by (simp only: 1)
  finally have "c div 4096 * 4096 + c div 64 mod 64 * 64 = c div 64 * 64"
    unfolding 2 q_def .
  then show ?thesis using split_64[of c] by simp
qed

lemma split_262144:
  "(c::nat) div 262144 * 262144 + c div 4096 mod 64 * 4096 + c div 64 mod 64 * 64 + c mod 64 = c"
proof -
  define q where "q = c div 4096"
  have 1: "q div 64 * 64 + q mod 64 = q" by simp
  have 2: "c div 262144 = q div 64" unfolding q_def by (simp add: div_mult2_eq)
  have "q div 64 * 262144 + q mod 64 * 4096 = (q div 64 * 64 + q mod 64) * 4096"
    by (rule scale_4096[symmetric])
  also have "\<dots> = q * 4096" by (simp only: 1)
  finally have "c div 262144 * 262144 + c div 4096 mod 64 * 4096 = c div 4096 * 4096"
    unfolding 2 q_def .
  then show ?thesis using split_4096[of c] by simp
qed

lemma utf8_decode_2:
  assumes "128 \<le> c" "c < 2048"
  shows "utf8_decode ([192 + c div 64, 128 + c mod 64] @ rest) = map_option ((#) c) (utf8_decode rest)"
proof -
  have "c div 64 < 32" "2 \<le> c div 64" using assms by auto
  then show ?thesis using assms
    by (simp add: is_cont_def Let_def)
qed

lemma utf8_decode_3:
  assumes "2048 \<le> c" "c < 65536" "\<not> (55296 \<le> c \<and> c \<le> 57343)"
  shows "utf8_decode ([224 + c div 4096, 128 + c div 64 mod 64, 128 + c mod 64] @ rest)
     = map_option ((#) c) (utf8_decode rest)"
proof -
  have r: "c div 4096 < 16" using assms by auto
  show ?thesis using assms r
    by (simp add: is_cont_def Let_def split_4096)
qed

lemma utf8_decode_4:
  assumes "65536 \<le> c" "c < 1114112"
  shows "utf8_decode ([240 + c div 262144, 128 + c div 4096 mod 64, 128 + c div 64 mod 64, 128 + c mod 64] @ rest)
     = map_option ((#) c) (utf8_decode rest)"
proof -
  have r: "c div 262144 < 8" using assms by auto
  show ?thesis using assms r
    by (simp add: is_cont_def Let_def split_262144)
qed

lemma utf8_decode_encode_char:
  assumes "utf8_encode_char c = Some bs"
  shows "utf8_decode (bs @ rest) = map_option ((#) c) (utf8_decode rest)"
proof (cases "c < 128")
  case True
  with assms have "bs = [c]" by (simp add: utf8_encode_char_def)
  with True show ?thesis by simp
next
  case n1: False
  show ?thesis
  proof (cases "c < 2048")
    case True
    with n1 assms have "bs = [192 + c div 64, 128 + c mod 64]"
      by (simp add: utf8_encode_char_def)
    with utf8_decode_2[of c rest] n1 True show ?thesis by simp
  next
    case n2: False
    show ?thesis
    proof (cases "c < 65536")
      case True
      with n1 n2 assms have s: "\<not> (55296 \<le> c \<and> c \<le> 57343)"
        and "bs = [224 + c div 4096, 128 + c div 64 mod 64, 128 + c mod 64]"
        by (simp_all add: utf8_encode_char_def split: if_splits)
      with utf8_decode_3[of c rest] n2 True show ?thesis by simp
    next
      case n3: False
      with n1 n2 assms have "c < 1114112"
        and "bs = [240 + c div 262144, 128 + c div 4096 mod 64, 128 + c div 64 mod 64, 128 + c mod 64]"
        by (simp_all add: utf8_encode_char_def split: if_splits)
      with utf8_decode_4[of c rest] n3 show ?thesis by simp
    qed
  qed
qed

lemma utf8_decode_encode: "utf8_encode s = Some bs \<Longrightarrow> utf8_decode bs = Some s"
proof (induction s arbitrary: bs)
  case Nil
  then show ?case by simp
next
  case (Cons c s)
  from Cons.prems obtain b1 b2 where
    c: "utf8_encode_char c = Some b1" and s: "utf8_encode s = Some b2" and bs: "bs = b1 @ b2"
    by (auto split: option.splits)
  show ?case unfolding bs utf8_decode_encode_char[OF c] using Cons.IH[OF s] by simp
qed

lemma utf8_encode_char_bytes:
  assumes "utf8_encode_char c = Some bs"
  shows "\<forall>b\<in>set bs. b < 256"
proof -
  have "c < 1114112" using assms by (simp add: utf8_encode_char_def split: if_splits)
  then have "c div 262144 < 8" "c mod 64 < 64" "c div 64 mod 64 < 64" "c div 4096 mod 64 < 64"
    by auto
  moreover have "c < 65536 \<Longrightarrow> c div 4096 < 16" "c < 2048 \<Longrightarrow> c div 64 < 32" by auto
  ultimately show ?thesis using assms
    by (auto simp: utf8_encode_char_def split: if_splits)
qed

lemma utf8_encode_bytes: "utf8_encode s = Some bs \<Longrightarrow> \<forall>b\<in>set bs. b < 256"
proof (induction s arbitrary: bs)
  case Nil
  then show ?case by simp
next
  case (Cons c s)
  from Cons.prems obtain b1 b2 where
    c: "utf8_encode_char c = Some b1" and s: "utf8_encode s = Some b2" and bs: "bs = b1 @ b2"
    by (auto split: option.splits)
  from utf8_encode_char_bytes[OF c] Cons.IH[OF s] bs show ?case by auto
qed

lemma unat_byte_of_nat: "b < 256 \<Longrightarrow> unat (of_nat b :: byte) = b"
  by (simp add: unat_of_nat take_bit_nat_eq_self)

lemma utf8_bytes_decode:
  assumes "encodable s"
  shows "utf8_decode (map unat (utf8_bytes s)) = Some s"
proof -
  from assms obtain bs where e: "utf8_encode s = Some bs" by (auto simp: encodable_def)
  from utf8_encode_bytes[OF e] have "map unat (map of_nat bs :: byte list) = bs"
    by (induction bs) (simp_all add: unat_byte_of_nat)
  with e utf8_decode_encode[OF e] show ?thesis by (simp add: utf8_bytes_def)
qed

lemma encodable_iff: "encodable s \<longleftrightarrow> (\<forall>c\<in>set s. utf8_encode_char c \<noteq> None)"
  by (induction s) (auto simp: encodable_def split: option.splits)

lemma encodable_append: "encodable (a @ b) \<longleftrightarrow> encodable a \<and> encodable b"
  by (auto simp: encodable_iff)

lemma encodable_concat: "encodable (concat xs) \<longleftrightarrow> (\<forall>x\<in>set xs. encodable x)"
  by (auto simp: encodable_iff)

lemma hex_val_digit: "n < 16 \<Longrightarrow> hex_val (hex_digit n) = Some n"
  by (auto simp: hex_val_def hex_digit_def)

lemma hex4_control: "c < 32 \<Longrightarrow> hex4 48 48 (hex_digit (c div 16)) (hex_digit (c mod 16)) = Some c"
proof -
  assume c: "c < 32"
  then have "c div 16 < 16" "c mod 16 < 16" by auto
  then have "hex_val (hex_digit (c div 16)) = Some (c div 16)"
    "hex_val (hex_digit (c mod 16)) = Some (c mod 16)" by (simp_all add: hex_val_digit)
  moreover have "hex_val 48 = Some 0" by (simp add: hex_val_def)
  ultimately show ?thesis by (simp add: hex4_def)
qed

lemma scanstring_escape_char:
  "scanstring (escape_char c @ rest) = map_option (\<lambda>(s, t). (c # s, t)) (scanstring rest)"
proof -
  consider (q) "c = QUOTE" | (b) "c = BACKSLASH" | (n) "c = 10" | (r) "c = 13" | (t) "c = 9"
    | (bs) "c = 8" | (f) "c = 12"
    | (ctl) "c < 32" "c \<noteq> 10" "c \<noteq> 13" "c \<noteq> 9" "c \<noteq> 8" "c \<noteq> 12"
    | (plain) "32 \<le> c" "c \<noteq> QUOTE" "c \<noteq> BACKSLASH"
    by (cases "c < 32") (auto simp: QUOTE_def BACKSLASH_def)
  then show ?thesis
  proof cases
    case ctl
    then have e: "escape_char c = [BACKSLASH, 117, 48, 48, hex_digit (c div 16), hex_digit (c mod 16)]"
      by (simp add: escape_char_def QUOTE_def BACKSLASH_def)
    show ?thesis unfolding e using ctl(1) hex4_control[OF ctl(1)]
      by (simp add: QUOTE_def BACKSLASH_def)
  next
    case plain
    then have e: "escape_char c = [c]"
      by (simp add: escape_char_def QUOTE_def BACKSLASH_def)
    show ?thesis unfolding e using plain by simp
  qed (simp_all add: escape_char_def simple_escape_def QUOTE_def BACKSLASH_def)
qed

lemma scanstring_escaped:
  "scanstring (concat (map escape_char s) @ QUOTE # rest) = Some (s, rest)"
proof (induction s)
  case Nil
  then show ?case by simp
next
  case (Cons c s)
  have "scanstring (concat (map escape_char (c # s)) @ QUOTE # rest)
      = scanstring (escape_char c @ (concat (map escape_char s) @ QUOTE # rest))" by simp
  also have "\<dots> = Some (c # s, rest)"
    unfolding scanstring_escape_char Cons.IH by simp
  finally show ?case .
qed

lemma parse_value_string:
  "parse_value (Suc n) j (encode_basestring s @ rest) = Some (JStr s, rest)"
  by (simp add: encode_basestring_def scanstring_escaped)


lemma skip_ws_string: "skip_ws (encode_basestring s @ r) = encode_basestring s @ r"
  by (simp add: skip_ws_def encode_basestring_def is_json_ws_def QUOTE_def)

lemma parse_members_step:
  "parse_members (Suc (Suc n)) j (encode_basestring k @ 58 # 32 # encode_basestring v @ tail) =
     (case skip_ws tail of
        [] \<Rightarrow> None
      | d # r4 \<Rightarrow>
          if d = 125 then Some ([(k, JStr v)], r4)
          else if d = 44 then
            map_option (\<lambda>(ps, r). ((k, JStr v) # ps, r)) (parse_members (Suc n) j (skip_ws r4))
          else None)"
proof -
  have t: "encode_basestring k @ 58 # 32 # encode_basestring v @ tail
      = QUOTE # (concat (map escape_char k) @ QUOTE # (58 # 32 # (encode_basestring v @ tail)))"
    by (simp add: encode_basestring_def)
  have w1: "skip_ws (58 # 32 # (encode_basestring v @ tail)) = 58 # 32 # (encode_basestring v @ tail)"
    by (simp add: skip_ws_def is_json_ws_def)
  have w2: "skip_ws (32 # (encode_basestring v @ tail)) = encode_basestring v @ tail"
    using skip_ws_string[of v tail] by (simp add: skip_ws_def is_json_ws_def)
  show ?thesis
    unfolding t
    by (simp only: parse_members.simps list.case scanstring_escaped option.case prod.case w1 w2
        parse_value_string simp_thms if_True if_False)
qed

lemma parse_members_dumped:
  "length ms < n \<Longrightarrow>
   parse_members (Suc n) j (encode_basestring k @ 58 # 32 # encode_basestring v
       @ concat (member_chunks ms) @ NEWLINE # 125 # rest)
     = Some ((k, JStr v) # map (\<lambda>(k, v). (k, JStr v)) ms, rest)"
proof (induction ms arbitrary: k v n)
  case Nil
  then obtain m where n: "n = Suc m" by (cases n) auto
  show ?case unfolding n parse_members_step
    by (simp add: skip_ws_def is_json_ws_def NEWLINE_def)
next
  case (Cons p ms)
  obtain k' v' where p: "p = (k', v')" by (cases p)
  from Cons.prems obtain m where n: "n = Suc m" and m: "length ms < m" by (cases n) auto
  have tail: "concat (member_chunks (p # ms)) @ NEWLINE # 125 # rest
      = 44 # NEWLINE # 32 # 32 # (encode_basestring k' @ 58 # 32 # encode_basestring v'
          @ concat (member_chunks ms) @ NEWLINE # 125 # rest)"
    by (simp add: p)
  have w1: "skip_ws (44 # x) = 44 # x" for x
    by (simp add: skip_ws_def is_json_ws_def)
  have w2: "skip_ws (NEWLINE # 32 # 32 # (encode_basestring k' @ y)) = encode_basestring k' @ y" for y
    using skip_ws_string[of k' y] by (simp add: skip_ws_def is_json_ws_def NEWLINE_def)
  show ?case
    unfolding n parse_members_step tail w1
    by (simp add: w2 Cons.IH[OF m] p del: parse_members.simps)
qed

lemma parse_value_object:
  "parse_value (Suc (Suc n)) (Suc j) (123 # NEWLINE # 32 # 32 # encode_basestring k @ tail)
     = map_option (\<lambda>(ps, r). (JObj ps, r)) (parse_members (Suc n) j (encode_basestring k @ tail))"
  by (simp add: encode_basestring_def skip_ws_def is_json_ws_def NEWLINE_def QUOTE_def
      del: parse_members.simps)

lemma json_loads_dumps:
  "json_loads (Suc j) (json_dumps d) = Some (JObj (map (\<lambda>(k, v). (k, JStr v)) d))"
proof (cases d)
  case Nil
  then show ?thesis
    by (simp add: json_loads_def json_dumps_def json_chunks_def starts_with_def skip_ws_def
        is_json_ws_def QUOTE_def)
next
  case (Cons p ms)
  obtain k v where p: "p = (k, v)" by (cases p)
  let ?body = "encode_basestring k @ 58 # 32 # encode_basestring v
       @ concat (member_chunks ms) @ NEWLINE # 125 # []"
  have doc: "json_dumps d = 123 # NEWLINE # 32 # 32 # ?body"
    by (simp add: json_dumps_def json_chunks_def Cons p)
  have len: "length ms < length (json_dumps d) - 1"
  proof -
    have "length ms \<le> length (concat (member_chunks ms))"
      by (induction ms) auto
    then show ?thesis unfolding doc by simp
  qed
  obtain n where n: "length (json_dumps d) = Suc n" and m: "length ms < n"
    using len by (cases "length (json_dumps d)") auto
  have "starts_with [65279] (json_dumps d) = False"
    unfolding doc by (simp add: starts_with_def)
  moreover have "skip_ws (json_dumps d) = json_dumps d"
    unfolding doc by (simp add: skip_ws_def is_json_ws_def)
  moreover have "parse_value (Suc (Suc n)) (Suc j) (json_dumps d)
      = Some (JObj (map (\<lambda>(k, v). (k, JStr v)) d), [])"
    unfolding doc parse_value_object parse_members_dumped[OF m] by (simp add: Cons p)
  ultimately show ?thesis
    unfolding json_loads_def n by (simp add: skip_ws_def)
qed

lemma str_pairs_strs: "str_pairs (map (\<lambda>(k, v). (k, JStr v)) d) = Some d"
  by (induction d) auto

lemma fold_update_distinct:
  "distinct (map fst (acc @ d)) \<Longrightarrow> fold (\<lambda>(k, v) a. AList.update k v a) d acc = acc @ d"
proof (induction d arbitrary: acc)
  case Nil
  then show ?case by simp
next
  case (Cons p d)
  obtain k v where p: "p = (k, v)" by (cases p)
  from Cons.prems p have "k \<notin> fst ` set acc" by auto
  then have "map_of acc k = None" by (simp add: map_of_eq_None_iff)
  then have u: "AList.update k v acc = acc @ [(k, v)]" by (rule update_absent)
  from Cons.prems p have "distinct (map fst ((acc @ [(k, v)]) @ d))" by simp
  from Cons.IH[OF this] u p show ?case by simp
qed

lemma dict_of_pairs_distinct: "distinct (map fst d) \<Longrightarrow> dict_of_pairs d = d"
  using fold_update_distinct[of "[]" d] by (simp add: dict_of_pairs_def)

lemma typed_dumped:
  "distinct (map fst d) \<Longrightarrow> typed (JObj (map (\<lambda>(k, v). (k, JStr v)) d)) = StrDict d"
  by (simp add: typed_def str_pairs_strs dict_of_pairs_distinct)

lemma universal_newlines_id: "13 \<notin> set s \<Longrightarrow> universal_newlines s = s"
  by (induction s rule: universal_newlines.induct) auto

lemma escape_char_no_cr: "13 \<notin> set (escape_char c)"
  by (auto simp: escape_char_def QUOTE_def BACKSLASH_def hex_digit_def)

lemma encode_basestring_no_cr: "13 \<notin> set (encode_basestring s)"
  using escape_char_no_cr by (auto simp: encode_basestring_def QUOTE_def)

lemma member_chunks_no_cr: "13 \<notin> set (concat (member_chunks ms))"
  using encode_basestring_no_cr by (induction ms) (auto simp: NEWLINE_def)

lemma json_dumps_no_cr: "13 \<notin> set (json_dumps d)"
  using encode_basestring_no_cr member_chunks_no_cr
  by (auto simp: json_dumps_def json_chunks_def NEWLINE_def split: list.splits)

lemma utf8_encode_char_None:
  "utf8_encode_char c = None \<longleftrightarrow> \<not> (c < 1114112 \<and> \<not> (55296 \<le> c \<and> c \<le> 57343))"
  by (simp add: utf8_encode_char_def)

lemma encodable_chars:
  "encodable s \<longleftrightarrow> (\<forall>c\<in>set s. c < 1114112 \<and> \<not> (55296 \<le> c \<and> c \<le> 57343))"
  unfolding encodable_iff using utf8_encode_char_None by blast

lemma escape_char_small:
  assumes "x \<in> set (escape_char c)"
  shows "x = c \<or> x < 128"
  using assms
  by (auto simp: escape_char_def QUOTE_def BACKSLASH_def hex_digit_def split: if_splits)

lemma encode_basestring_encodable:
  assumes "encodable s"
  shows "encodable (encode_basestring s)"
  unfolding encodable_chars
proof
  fix x assume "x \<in> set (encode_basestring s)"
  then have "x = QUOTE \<or> (\<exists>c\<in>set s. x \<in> set (escape_char c))"
    by (auto simp: encode_basestring_def)
  then have "x < 128 \<or> x \<in> set s"
    using escape_char_small by (auto simp: QUOTE_def)
  with assms show "x < 1114112 \<and> \<not> (55296 \<le> x \<and> x \<le> 57343)"
    unfolding encodable_chars by auto
qed

lemma punctuation_encodable:
  "encodable [123, 125]" "encodable [123]" "encodable [125]" "encodable [NEWLINE]"
  "encodable [NEWLINE, 32, 32]" "encodable [58, 32]" "encodable [44, NEWLINE, 32, 32]"
  by (simp_all add: encodable_chars NEWLINE_def)

lemma member_chunks_encodable:
  "dict_encodable ms \<Longrightarrow> list_all encodable (member_chunks ms)"
proof (induction ms)
  case Nil
  then show ?case by simp
next
  case (Cons p ms)
  obtain k v where p: "p = (k, v)" by (cases p)
  from Cons.prems p have kv: "encodable k" "encodable v" and ms: "dict_encodable ms"
    by (simp_all add: dict_encodable_def)
  from Cons.IH[OF ms] kv show ?case
    by (simp add: p punctuation_encodable encode_basestring_encodable)
qed

lemma json_chunks_encodable:
  assumes "dict_encodable d"
  shows "list_all encodable (json_chunks d)"
proof (cases d)
  case Nil
  then show ?thesis by (simp add: json_chunks_def punctuation_encodable)
next
  case (Cons p ms)
  obtain k v where p: "p = (k, v)" by (cases p)
  from assms Cons p have kv: "encodable k" "encodable v" and ms: "dict_encodable ms"
    by (simp_all add: dict_encodable_def)
  from member_chunks_encodable[OF ms] kv show ?thesis
    by (simp add: json_chunks_def Cons p punctuation_encodable encode_basestring_encodable)
qed

lemma tmp_path_neq: "tmp_path p \<noteq> p"
  by (simp add: tmp_path_def)

lemma json_dumps_encodable: "dict_encodable d \<Longrightarrow> encodable (json_dumps d)"
  using json_chunks_encodable[of d] by (simp add: json_dumps_def encodable_concat list_all_iff)

lemma open_r_exn: "open_r n = Inl x \<Longrightarrow> \<exists>m. x = Exception m"
  by (cases x) (auto simp: open_r_def split: option.splits node.splits if_splits)

lemma open_w_exn: "open_w n = Inl x \<Longrightarrow> \<exists>m. x = Exception m"
  by (cases x) (auto simp: open_w_def split: option.splits node.splits)


lemma open_w_free: "free_or_file fs p \<Longrightarrow> open_w (fs p) = Inr (Regular True)"
  by (auto simp: free_or_file_def open_w_def split: option.splits node.splits)

lemma replace_written:
  assumes "src \<noteq> dst" and "fs dst \<noteq> Some Directory"
  shows "replace src dst (fs(src \<mapsto> Regular r bs)) = Inr (fs(dst \<mapsto> Regular r bs, src := None))"
proof -
  have u: "(fs(src \<mapsto> Regular r bs))(dst \<mapsto> Regular r bs, src := None)
      = fs(dst \<mapsto> Regular r bs, src := None)"
    by (auto simp: fun_eq_iff)
  show ?thesis
  proof (cases "fs dst")
    case None
    with assms(1) show ?thesis by (simp add: replace_def u)
  next
    case (Some n)
    with assms show ?thesis by (cases n) (simp_all add: replace_def u)
  qed
qed

lemma save_cache_ok:
  assumes "dict_encodable d" and "free_or_file (files w) (tmp_path cf)"
    and "files w cf \<noteq> Some Directory"
  shows "save_cache cf d w =
     (Inr (), w\<lparr>saves := saves w @ [(cf, d)],
               files := (files w)(cf \<mapsto> Regular True (utf8_bytes (json_dumps d)),
                                  tmp_path cf := None)\<rparr>)"
proof -
  have all: "takeWhile encodable (json_chunks d) = json_chunks d"
    using json_chunks_encodable[OF assms(1)] by (simp add: takeWhile_eq_all_conv list_all_iff)
  have rp: "replace (tmp_path cf) cf ((files w)(tmp_path cf \<mapsto> Regular True (utf8_bytes (json_dumps d))))
      = Inr ((files w)(cf \<mapsto> Regular True (utf8_bytes (json_dumps d)), tmp_path cf := None))"
    by (rule replace_written[of "tmp_path cf" cf "files w", OF tmp_path_neq assms(3)])
  show ?thesis
    by (simp add: save_cache_def Let_def all open_w_free[OF assms(2)] rp[unfolded json_dumps_def]
        json_dumps_def)
qed

lemma load_cache_dumped:
  assumes "distinct (map fst d)" and "encodable (json_dumps d)"
    and "files w cf = Some (Regular True (utf8_bytes (json_dumps d)))"
  shows "load_cache cf w = (Inr (StrDict d), w)"
  using assms
  by (simp add: load_cache_def is_file_def read_json_file_def open_r_def utf8_bytes_decode
      universal_newlines_id[OF json_dumps_no_cr] json_loads_dumps typed_dumped)

lemma save_then_load:
  assumes "distinct (map fst d)" and "dict_encodable d"
    and "free_or_file (files w) (tmp_path cf)" and "files w cf \<noteq> Some Directory"
    and "save_cache cf d w = (r, w1)"
  shows "r = Inr () \<and> load_cache cf w1 = (Inr (StrDict d), w1)
     \<and> files w1 = (files w)(cf \<mapsto> Regular True (utf8_bytes (json_dumps d)), tmp_path cf := None)
     \<and> saves w1 = saves w @ [(cf, d)] \<and> cache w1 = cache w \<and> calls w1 = calls w
     \<and> fout w1 = fout w \<and> diag w1 = diag w \<and> sleeps w1 = sleeps w"
proof -
  from save_cache_ok[OF assms(2,3,4)] assms(5)
  have r: "r = Inr ()" and w1: "w1 = w\<lparr>saves := saves w @ [(cf, d)],
        files := (files w)(cf \<mapsto> Regular True (utf8_bytes (json_dumps d)), tmp_path cf := None)\<rparr>"
    by simp_all
  have "files w1 cf = Some (Regular True (utf8_bytes (json_dumps d)))"
    unfolding w1 using tmp_path_neq[of cf] by simp
  from load_cache_dumped[OF assms(1) json_dumps_encodable[OF assms(2)] this] r w1
  show ?thesis by simp
qed

lemma takeWhile_full: "\<not> length (takeWhile P xs) < length xs \<Longrightarrow> takeWhile P xs = xs"
proof (induction xs)
  case Nil
  then show ?case by simp
next
  case (Cons x xs)
  then show ?case
    using length_takeWhile_le[of P xs] by (auto split: if_splits)
qed

text \<open>What a flush that returns has done.\<close>

lemma save_cache_returned:
  assumes "save_cache cf d w = (Inr (), w')"
  obtains r where "takeWhile encodable (json_chunks d) = json_chunks d"
    and "open_w (files w (tmp_path cf)) = Inr (Regular r)"
    and "files w cf \<noteq> Some Directory"
    and "w' = w\<lparr>saves := saves w @ [(cf, d)],
               files := (files w)(cf \<mapsto> Regular r (utf8_bytes (json_dumps d)), tmp_path cf := None)\<rparr>"
proof -
  from assms obtain mk where o: "open_w (files w (tmp_path cf)) = Inr mk"
    by (cases "open_w (files w (tmp_path cf))") (simp_all add: save_cache_def Let_def)
  from assms o have full: "\<not> length (takeWhile encodable (json_chunks d)) < length (json_chunks d)"
    by (auto simp: save_cache_def Let_def split: if_splits)
  note all = takeWhile_full[OF full]
  let ?bytes = "utf8_bytes (json_dumps d)"
  let ?fs1 = "(files w)(tmp_path cf \<mapsto> mk ?bytes)"
  from assms o obtain fs2 where rp: "replace (tmp_path cf) cf ?fs1 = Inr fs2"
    and w': "w' = w\<lparr>saves := saves w @ [(cf, d)], files := fs2\<rparr>"
    by (cases "replace (tmp_path cf) cf ?fs1")
      (simp_all add: save_cache_def Let_def all json_dumps_def)
  from o consider (new) "mk = Regular True" | (old) r where "mk = Regular r"
    | (pinned) r where "mk = Pinned r"
    by (auto simp: open_w_def split: option.splits node.splits)
  then obtain r where f: "mk = Regular r"
  proof cases
    case new
    then show ?thesis using that by blast
  next
    case (old r)
    then show ?thesis using that by blast
  next
    case (pinned r)
    with rp show ?thesis by (simp add: replace_def)
  qed
  have nd: "files w cf \<noteq> Some Directory"
  proof
    assume "files w cf = Some Directory"
    with rp f tmp_path_neq[of cf] show False by (simp add: replace_def)
  qed
  from replace_written[of "tmp_path cf" cf "files w" r ?bytes, OF tmp_path_neq nd] rp f
  have "fs2 = (files w)(cf \<mapsto> Regular r ?bytes, tmp_path cf := None)" by simp
  with w' show ?thesis using that[OF all o[unfolded f] nd] by simp
qed


lemma save_cache_success_encodable:
  assumes "save_cache p d w = (Inr (), w')"
  shows "encodable (json_dumps d)"
proof -
  from assms have "takeWhile encodable (json_chunks d) = json_chunks d"
    by (rule save_cache_returned)
  then have "\<forall>x\<in>set (json_chunks d). encodable x"
    by (simp add: takeWhile_eq_all_conv)
  then show ?thesis by (simp add: json_dumps_def encodable_concat)
qed

text \<open>
  Claim C5, as amended. For a mapping (keys distinct, as in any \<open>dict\<close>): when the flush
  to a location returns and the file it leaves there can be opened for reading, loading
  from the location gives the mapping back, entry for entry and in the same order, and
  changes nothing.
\<close>

theorem cache_round_trip:
  assumes flushed: "save_cache cf d w = (Inr (), w1)"
    and keys: "distinct (map fst d)"
    and readable: "open_r (files w1 cf) = Inr bs"
  shows "load_cache cf w1 = (Inr (StrDict d), w1)"
proof -
  from flushed obtain r where
    w1: "w1 = w\<lparr>saves := saves w @ [(cf, d)],
               files := (files w)(cf \<mapsto> Regular r (utf8_bytes (json_dumps d)), tmp_path cf := None)\<rparr>"
    by (rule save_cache_returned)
  then have f: "files w1 cf = Some (Regular r (utf8_bytes (json_dumps d)))"
    using tmp_path_neq[of cf] by simp
  with readable have "r" by (simp add: open_r_def split: if_splits)
  with f have "files w1 cf = Some (Regular True (utf8_bytes (json_dumps d)))" by simp
  from load_cache_dumped[OF keys save_cache_success_encodable[OF flushed] this]
  show ?thesis .
qed

theorem cache_round_trip_witness:
  "fst (save_cache ''in.cache_es.json'' [(ustr_of ''Engine Speed'', ustr_of ''Velocidad del motor'')]
          (fresh_world Map.empty)) = Inr ()
   \<and> fst (load_cache ''in.cache_es.json''
            (snd (save_cache ''in.cache_es.json'' [(ustr_of ''Engine Speed'', ustr_of ''Velocidad del motor'')]
                    (fresh_world Map.empty))))
       = Inr (StrDict [(ustr_of ''Engine Speed'', ustr_of ''Velocidad del motor'')])"
proof -
  let ?d = "[(ustr_of ''Engine Speed'', ustr_of ''Velocidad del motor'')]"
  let ?cf = "''in.cache_es.json''"
  let ?w = "fresh_world Map.empty"
  let ?w1 = "?w\<lparr>saves := saves ?w @ [(?cf, ?d)],
               files := (files ?w)(?cf \<mapsto> Regular True (utf8_bytes (json_dumps ?d)), tmp_path ?cf := None)\<rparr>"
  have b: "dict_encodable ?d"
    by (simp add: dict_encodable_def encodable_chars ustr_of_def)
  have c: "free_or_file (files ?w) (tmp_path ?cf)"
    by (simp add: free_or_file_def fresh_world_def)
  have d: "files ?w ?cf \<noteq> Some Directory"
    by (simp add: fresh_world_def)
  have flushed: "save_cache ?cf ?d ?w = (Inr (), ?w1)"
    by (rule save_cache_ok[OF b c d])
  have keys: "distinct (map fst ?d)" by simp
  have readable: "open_r (files ?w1 ?cf) = Inr (utf8_bytes (json_dumps ?d))"
    using tmp_path_neq[of ?cf] by (simp add: open_r_def)
  from cache_round_trip[OF flushed keys readable] flushed show ?thesis by simp
qed

text \<open>
  Claim C5 as stated fails for a mapping that holds a lone surrogate (a value a cache file
  can bring in through the escape \<open>\ud800\<close>): with \<open>ensure_ascii=False\<close> the UTF-8 file
  refuses it, the flush raises, and the location holds no mapping to load.
\<close>

theorem cache_round_trip_counterexample:
  "fst (save_cache ''c.json'' [(ustr_of ''a'', [55296])] (fresh_world Map.empty))
     = Inl (Exception ''UnicodeEncodeError'')
   \<and> fst (load_cache ''c.json'' (snd (save_cache ''c.json'' [(ustr_of ''a'', [55296])] (fresh_world Map.empty))))
     = Inr (StrDict [])"
proof -
  have e: "encodable [123]" "encodable [NEWLINE, 32, 32]" "encodable (encode_basestring (ustr_of ''a''))"
    "encodable [58, 32]" "\<not> encodable (encode_basestring [55296])"
    by (simp_all add: encodable_chars encode_basestring_def escape_char_def ustr_of_def
        QUOTE_def BACKSLASH_def NEWLINE_def)
  show ?thesis
    by (simp add: save_cache_def load_cache_def Let_def json_chunks_def e fresh_world_def
        tmp_path_def is_file_def open_w_def)
qed




section \<open>Reading the input\<close>

lemma charmap_decode_latin1: "charmap_decode latin1_decoding h bs = Inr (map unat bs)"
  by (induction bs) (simp_all add: latin1_decoding_def)

lemma split_keepends_concat: "concat (split_keepends t) = t"
  by (induction t) (auto split: list.splits)

section \<open>One line, and the loop over the lines\<close>

lemma replace_frame:
  assumes "replace src dst fs = Inr fs2" and "p \<noteq> src" and "p \<noteq> dst"
  shows "fs2 p = fs p"
  using assms by (auto simp: replace_def split: option.splits node.splits)

lemma replace_exn: "replace src dst fs = Inl x \<Longrightarrow> \<exists>m. x = Exception m"
  by (cases x) (auto simp: replace_def split: option.splits node.splits)

lemma save_cache_frame:
  assumes "save_cache cf d w = (r, w')"
  shows "cache w' = cache w \<and> calls w' = calls w \<and> sleeps w' = sleeps w \<and> diag w' = diag w
     \<and> fout w' = fout w \<and> saves w' = saves w @ [(cf, d)]
     \<and> (\<forall>p. p \<noteq> cf \<and> p \<noteq> tmp_path cf \<longrightarrow> files w' p = files w p)
     \<and> r \<noteq> Inl KeyboardInterrupt"
proof (cases "open_w (files w (tmp_path cf))")
  case (Inl x)
  with open_w_exn obtain m where "x = Exception m" by blast
  with Inl assms show ?thesis by (auto simp: save_cache_def Let_def)
next
  case (Inr mk)
  let ?written = "takeWhile encodable (json_chunks d)"
  let ?fs1 = "(files w)(tmp_path cf \<mapsto> mk (utf8_bytes (concat ?written)))"
  show ?thesis
  proof (cases "length ?written < length (json_chunks d)")
    case True
    with Inr assms show ?thesis by (auto simp: save_cache_def Let_def)
  next
    case False
    show ?thesis
    proof (cases "replace (tmp_path cf) cf ?fs1")
      case (Inl x)
      with replace_exn obtain m where "x = Exception m" by blast
      with Inl Inr False assms show ?thesis by (auto simp: save_cache_def Let_def)
    next
      case fs2: (Inr fs2)
      from replace_frame[OF fs2] have "\<forall>p. p \<noteq> cf \<and> p \<noteq> tmp_path cf \<longrightarrow> fs2 p = files w p"
        by simp
      with fs2 Inr False assms show ?thesis by (auto simp: save_cache_def Let_def)
    qed
  qed
qed

lemma quote_matches_plain: "QUOTE \<notin> set line \<Longrightarrow> quote_matches line = map Lit line"
  by (induction line) auto

lemma refill_lits: "refill (map Lit l) outs = l"
  by (induction l) auto

lemma frag_texts_lits: "frag_texts (map Lit l) = []"
  by (induction l) auto

lemma translate_line_refill:
  assumes "translate_line e line dest debug lineno w = (Inr (new_line, chg), w')"
  shows "\<exists>outs. length outs = length (frag_texts (quote_matches line))
           \<and> new_line = refill (quote_matches line) outs"
proof (cases "QUOTE \<in> set line")
  case True
  with assms have "sub_pieces e dest debug lineno (quote_matches line) False w = (Inr (new_line, chg), w')"
    by (simp add: translate_line_def)
  then show ?thesis by (rule sub_pieces_refill)
next
  case False
  with assms have "new_line = line" by (simp add: translate_line_def)
  with False show ?thesis
    by (intro exI[of _ "[]"]) (simp add: quote_matches_plain refill_lits frag_texts_lits)
qed

lemma translate_line_effects:
  assumes "translate_line e line dest debug lineno w = (r, w')"
  shows "files w' = files w \<and> fout w' = fout w \<and> saves w' = saves w
     \<and> (\<exists>cs. calls w' = calls w @ cs
            \<and> (\<forall>c\<in>set cs. snd c = dest \<and> py_strip (fst c) \<noteq> [] \<and> map_of (cache w) (fst c) = None
                            \<and> Frag (fst c) \<in> set (quote_matches line)))
     \<and> (\<exists>new. cache w' = cache w @ new
            \<and> (\<forall>kv\<in>set new. py_strip (fst kv) \<noteq> [] \<and> map_of (cache w) (fst kv) = None
                             \<and> Frag (fst kv) \<in> set (quote_matches line)))"
proof (cases "QUOTE \<in> set line")
  case True
  with assms have "sub_pieces e dest debug lineno (quote_matches line) False w = (r, w')"
    by (simp add: translate_line_def)
  then show ?thesis by (rule sub_pieces_effects)
next
  case False
  with assms have "w' = w" by (simp add: translate_line_def)
  then show ?thesis by simp
qed

lemma line_step_cases:
  assumes "line_step e dest debug cf line (t, c, s) w = (r, w')"
  obtains
    (interrupted) "read_interrupted e (t + 1)" "r = Inl KeyboardInterrupt" "w' = w"
  | (raised) x w1 where "\<not> read_interrupted e (t + 1)" "QUOTE \<in> set line"
      "translate_line e (rstrip_newlines line) dest debug (Some (t + 1)) w = (Inl x, w1)"
      "r = Inl x" "w' = w1"
  | (written) chunk c1 w1 w2 s1 where "\<not> read_interrupted e (t + 1)"
      "if QUOTE \<in> set line
       then (\<exists>new_line chg. translate_line e (rstrip_newlines line) dest debug (Some (t + 1)) w
                 = (Inr (new_line, chg), w1)
               \<and> chunk = new_line @ [NEWLINE] \<and> c1 = (if chg then c + 1 else c))
       else w1 = w \<and> chunk = line \<and> c1 = c"
      "if float_sub e (time_time e (t + 1)) s \<ge> CACHE_SAVE_INTERVAL_SEC
       then (\<exists>sr. save_cache cf (cache w1) (w1\<lparr>fout := fout w1 @ chunk\<rparr>) = (sr, w2)
               \<and> (case sr of Inl x \<Rightarrow> r = Inl x \<and> w' = w2
                   | Inr u \<Rightarrow> s1 = time_time e (t + 1)
                       \<and> r = Inr (t + 1, c1, s1)
                       \<and> w' = (if (t + 1) mod PROGRESS_EVERY_LINES = 0 \<and> \<not> debug
                               then w2\<lparr>diag := diag w2 @ [Progress (t + 1) c1 (length (cache w2))]\<rparr>
                               else w2)))
       else w2 = w1\<lparr>fout := fout w1 @ chunk\<rparr> \<and> s1 = s \<and> r = Inr (t + 1, c1, s1)
            \<and> w' = (if (t + 1) mod PROGRESS_EVERY_LINES = 0 \<and> \<not> debug
                     then w2\<lparr>diag := diag w2 @ [Progress (t + 1) c1 (length (cache w2))]\<rparr>
                     else w2)"
proof (cases "read_interrupted e (t + 1)")
  case True
  with assms interrupted show ?thesis by (simp add: line_step_def)
next
  case ni: False
  show ?thesis
  proof (cases "QUOTE \<in> set line")
    case q: True
    obtain tr w1 where tl: "translate_line e (rstrip_newlines line) dest debug (Some (t + 1)) w = (tr, w1)"
      by (cases "translate_line e (rstrip_newlines line) dest debug (Some (t + 1)) w")
    show ?thesis
    proof (cases tr)
      case (Inl x)
      with assms ni q tl raised show ?thesis by (simp add: line_step_def)
    next
      case (Inr y)
      obtain new_line chg where y: "y = (new_line, chg)" by (cases y)
      let ?w1 = "w1\<lparr>fout := fout w1 @ new_line @ [NEWLINE]\<rparr>"
      show ?thesis
      proof (cases "float_sub e (time_time e (t + 1)) s \<ge> CACHE_SAVE_INTERVAL_SEC")
        case True
        obtain sr w2 where sv: "save_cache cf (cache w1) ?w1 = (sr, w2)"
          by (cases "save_cache cf (cache w1) ?w1")
        from assms ni q tl Inr y True sv
        show ?thesis
          by (intro written[where chunk="new_line @ [NEWLINE]" and ?w1.0=w1 and ?c1.0="if chg then c + 1 else c" and ?w2.0=w2 and ?s1.0="time_time e (t + 1)"])
             (auto simp: line_step_def Let_def split: sum.splits)
      next
        case False
        from assms ni q tl Inr y False
        show ?thesis
          by (intro written[where chunk="new_line @ [NEWLINE]" and ?w1.0=w1 and ?c1.0="if chg then c + 1 else c" and ?w2.0="?w1" and ?s1.0=s])
             (auto simp: line_step_def Let_def split: sum.splits)
      qed
    qed
  next
    case nq: False
    let ?w1 = "w\<lparr>fout := fout w @ line\<rparr>"
    show ?thesis
    proof (cases "float_sub e (time_time e (t + 1)) s \<ge> CACHE_SAVE_INTERVAL_SEC")
      case True
      obtain sr w2 where sv: "save_cache cf (cache w) ?w1 = (sr, w2)"
        by (cases "save_cache cf (cache w) ?w1")
      from assms ni nq True sv
      show ?thesis
        by (intro written[where chunk=line and ?w1.0=w and ?c1.0=c and ?w2.0=w2 and ?s1.0="time_time e (t + 1)"])
           (auto simp: line_step_def Let_def split: sum.splits)
    next
      case False
      from assms ni nq False
      show ?thesis
        by (intro written[where chunk=line and ?w1.0=w and ?c1.0=c and ?w2.0="?w1" and ?s1.0=s])
           (auto simp: line_step_def Let_def split: sum.splits)
    qed
  qed
qed


lemma frag_texts_set: "set (frag_texts ps) = {inner. Frag inner \<in> set ps}"
proof (induction ps)
  case Nil
  then show ?case by simp
next
  case (Cons p ps)
  then show ?case by (cases p) auto
qed

lemma rstrip_newlines_subset: "set (rstrip_newlines l) \<subseteq> set l"
proof -
  have "set (dropWhile (\<lambda>c. c = NEWLINE) (rev l)) \<subseteq> set (rev l)"
    by (rule set_dropWhileD[THEN subsetI]) 
  then show ?thesis by (simp add: rstrip_newlines_def)
qed

lemma fragments_of_plain:
  assumes "QUOTE \<notin> set line"
  shows "fragments_of line = []"
proof -
  from assms rstrip_newlines_subset[of line] have "QUOTE \<notin> set (rstrip_newlines line)" by blast
  then show ?thesis
    by (simp add: fragments_of_def quote_matches_plain frag_texts_lits)
qed

lemma line_step_summary:
  assumes "line_step e dest debug cf line (t, c, s) w = (r, w')"
  shows "(\<exists>cs new. calls w' = calls w @ cs \<and> cache w' = cache w @ new
            \<and> (\<forall>c\<in>set cs. snd c = dest \<and> py_strip (fst c) \<noteq> [] \<and> map_of (cache w) (fst c) = None
                            \<and> fst c \<in> set (fragments_of line))
            \<and> (\<forall>kv\<in>set new. py_strip (fst kv) \<noteq> [] \<and> map_of (cache w) (fst kv) = None
                            \<and> fst kv \<in> set (fragments_of line)))
     \<and> (\<forall>p. p \<noteq> cf \<and> p \<noteq> tmp_path cf \<longrightarrow> files w' p = files w p)
     \<and> (r = Inl KeyboardInterrupt \<longrightarrow> fout w' = fout w \<and> files w' = files w \<and> saves w' = saves w)
     \<and> (\<forall>loc'. r = Inr loc' \<longrightarrow>
           (\<exists>outs c1 s1. loc' = (t + 1, c1, s1) \<and> length outs = length (fragments_of line)
               \<and> fout w' = fout w @ rewritten line outs))"
  using assms
proof (cases rule: line_step_cases)
  case interrupted
  then show ?thesis by simp
next
  case (raised x w1)
  from translate_line_effects[OF raised(3)] raised(4,5) show ?thesis
    by (simp add: fragments_of_def frag_texts_set) blast
next
  case (written chunk c1 w1 w2 s1)
  have tl: "files w1 = files w \<and> fout w1 = fout w \<and> saves w1 = saves w
     \<and> (\<exists>cs new. calls w1 = calls w @ cs \<and> cache w1 = cache w @ new
            \<and> (\<forall>c\<in>set cs. snd c = dest \<and> py_strip (fst c) \<noteq> [] \<and> map_of (cache w) (fst c) = None
                            \<and> fst c \<in> set (fragments_of line))
            \<and> (\<forall>kv\<in>set new. py_strip (fst kv) \<noteq> [] \<and> map_of (cache w) (fst kv) = None
                            \<and> fst kv \<in> set (fragments_of line)))
     \<and> (\<exists>outs. length outs = length (fragments_of line) \<and> chunk = rewritten line outs)"
  proof (cases "QUOTE \<in> set line")
    case True
    with written(2) obtain new_line chg where
      t: "translate_line e (rstrip_newlines line) dest debug (Some (t + 1)) w = (Inr (new_line, chg), w1)"
      and ch: "chunk = new_line @ [NEWLINE]" by auto
    from translate_line_refill[OF t] ch True
    have "\<exists>outs. length outs = length (fragments_of line) \<and> chunk = rewritten line outs"
      by (auto simp: fragments_of_def rewritten_def)
    with translate_line_effects[OF t] show ?thesis
      by (simp add: fragments_of_def frag_texts_set) blast
  next
    case False
    with written(2) have "w1 = w" "chunk = line" by auto
    with False show ?thesis
      by (auto simp: rewritten_def fragments_of_plain)
  qed
  have sv: "cache w' = cache w1 \<and> calls w' = calls w1 \<and> fout w' = fout w1 @ chunk
      \<and> (\<forall>p. p \<noteq> cf \<and> p \<noteq> tmp_path cf \<longrightarrow> files w' p = files w1 p)
      \<and> r \<noteq> Inl KeyboardInterrupt
      \<and> (\<forall>loc'. r = Inr loc' \<longrightarrow> loc' = (t + 1, c1, s1))"
  proof (cases "float_sub e (time_time e (t + 1)) s \<ge> CACHE_SAVE_INTERVAL_SEC")
    case True
    with written(3) obtain sr where
      s: "save_cache cf (cache w1) (w1\<lparr>fout := fout w1 @ chunk\<rparr>) = (sr, w2)"
      and r: "case sr of Inl x \<Rightarrow> r = Inl x \<and> w' = w2
                   | Inr u \<Rightarrow> s1 = time_time e (t + 1)
                       \<and> r = Inr (t + 1, c1, s1)
                       \<and> w' = (if (t + 1) mod PROGRESS_EVERY_LINES = 0 \<and> \<not> debug
                               then w2\<lparr>diag := diag w2 @ [Progress (t + 1) c1 (length (cache w2))]\<rparr>
                               else w2)" by auto
    from save_cache_frame[OF s] r show ?thesis
      by (cases sr) (auto split: if_splits)
  next
    case False
    with written(3) show ?thesis by (auto split: if_splits)
  qed
  from tl sv show ?thesis by (simp; blast)
qed

lemma line_loop_effects:
  "line_loop e dest debug cf lines loc w = (r, w') \<Longrightarrow>
     (\<exists>cs new. calls w' = calls w @ cs \<and> cache w' = cache w @ new
            \<and> (\<forall>c\<in>set cs. py_strip (fst c) \<noteq> [] \<and> map_of (cache w) (fst c) = None)
            \<and> (\<forall>kv\<in>set new. py_strip (fst kv) \<noteq> [] \<and> map_of (cache w) (fst kv) = None))
     \<and> (\<forall>p. p \<noteq> cf \<and> p \<noteq> tmp_path cf \<longrightarrow> files w' p = files w p)"
proof (induction lines arbitrary: loc w)
  case Nil
  then show ?case by simp
next
  case (Cons line lines)
  obtain t c s where loc: "loc = (t, c, s)" by (cases loc)
  obtain r1 w1 where st: "line_step e dest debug cf line (t, c, s) w = (r1, w1)"
    by (cases "line_step e dest debug cf line (t, c, s) w")
  from line_step_summary[OF st] obtain cs new where s1:
    "calls w1 = calls w @ cs" "cache w1 = cache w @ new"
    "\<forall>c\<in>set cs. py_strip (fst c) \<noteq> [] \<and> map_of (cache w) (fst c) = None"
    "\<forall>kv\<in>set new. py_strip (fst kv) \<noteq> [] \<and> map_of (cache w) (fst kv) = None"
    "\<forall>p. p \<noteq> cf \<and> p \<noteq> tmp_path cf \<longrightarrow> files w1 p = files w p"
    by blast
  show ?case
  proof (cases r1)
    case (Inl x)
    with Cons.prems loc st have "w' = w1" by simp
    with s1 show ?thesis by blast
  next
    case (Inr loc1)
    with Cons.prems loc st have "line_loop e dest debug cf lines loc1 w1 = (r, w')" by simp
    from Cons.IH[OF this] obtain cs2 new2 where s2:
      "calls w' = calls w1 @ cs2" "cache w' = cache w1 @ new2"
      "\<forall>c\<in>set cs2. py_strip (fst c) \<noteq> [] \<and> map_of (cache w1) (fst c) = None"
      "\<forall>kv\<in>set new2. py_strip (fst kv) \<noteq> [] \<and> map_of (cache w1) (fst kv) = None"
      "\<forall>p. p \<noteq> cf \<and> p \<noteq> tmp_path cf \<longrightarrow> files w' p = files w1 p"
      by blast
    have a: "calls w' = calls w @ (cs @ cs2)" "cache w' = cache w @ (new @ new2)"
      using s1 s2 by simp_all
    have b: "\<forall>c\<in>set (cs @ cs2). py_strip (fst c) \<noteq> [] \<and> map_of (cache w) (fst c) = None"
      using s1(2,3) s2(3) by (auto simp: map_of_append_None)
    have c: "\<forall>kv\<in>set (new @ new2). py_strip (fst kv) \<noteq> [] \<and> map_of (cache w) (fst kv) = None"
      using s1(2,4) s2(4) by (auto simp: map_of_append_None)
    from a b c s1(5) s2(5) show ?thesis by (intro conjI exI[of _ "cs @ cs2"] exI[of _ "new @ new2"]) simp_all
  qed
qed

lemma line_loop_chunks:
  "line_loop e dest debug cf lines loc w = (Inr loc', w') \<Longrightarrow>
     \<exists>outss. list_all2 (\<lambda>line outs. length outs = length (fragments_of line)) lines outss
        \<and> fout w' = fout w @ concat (map2 rewritten lines outss)"
proof (induction lines arbitrary: loc w)
  case Nil
  then show ?case by simp
next
  case (Cons line lines)
  obtain t c s where loc: "loc = (t, c, s)" by (cases loc)
  obtain r1 w1 where st: "line_step e dest debug cf line (t, c, s) w = (r1, w1)"
    by (cases "line_step e dest debug cf line (t, c, s) w")
  from Cons.prems loc st obtain loc1 where r1: "r1 = Inr loc1"
    and rest: "line_loop e dest debug cf lines loc1 w1 = (Inr loc', w')"
    by (cases r1) auto
  from line_step_summary[OF st] r1 obtain outs where o:
    "length outs = length (fragments_of line)" "fout w1 = fout w @ rewritten line outs"
    by blast
  from Cons.IH[OF rest] obtain outss where os:
    "list_all2 (\<lambda>line outs. length outs = length (fragments_of line)) lines outss"
    "fout w' = fout w1 @ concat (map2 rewritten lines outss)" by blast
  from o os show ?case
    by (intro exI[of _ "outs # outss"]) simp
qed


section \<open>Where the substituted texts come from\<close>

lemma attempt_loop_answer:
  "attempt_loop e t d as w = (Inr (Some x), w') \<Longrightarrow> \<exists>n. translate e n t d = Inr x"
proof (induction as arbitrary: w)
  case Nil
  then show ?case by simp
next
  case (Cons a as)
  show ?case
  proof (cases "translate e (length (calls w)) t d")
    case (Inr y)
    with Cons.prems have "y = x" by (simp add: Let_def)
    with Inr show ?thesis by blast
  next
    case (Inl ex)
    show ?thesis
    proof (cases ex)
      case KeyboardInterrupt
      with Inl Cons.prems show ?thesis by (simp add: Let_def)
    next
      case (Exception msg)
      with Inl Cons.prems obtain w3 where "attempt_loop e t d as w3 = (Inr (Some x), w')"
        by (auto simp: Let_def split: if_splits)
      then show ?thesis by (rule Cons.IH)
    qed
  qed
qed

lemma translate_text_frag_answer:
  assumes "translate_text_frag e t d w = (Inr x, w')"
  shows "x = t \<or> (\<exists>n. translate e n t d = Inr x)"
proof -
  obtain r0 w0 where al: "attempt_loop e t d [0..<RETRY_LIMIT] w = (r0, w0)"
    by (cases "attempt_loop e t d [0..<RETRY_LIMIT] w")
  with assms have "r0 = Inr None \<and> x = t \<or> r0 = Inr (Some x)"
    by (auto simp: translate_text_frag_def split: sum.splits option.splits)
  with al attempt_loop_answer show ?thesis by blast
qed

lemma repl_texts:
  assumes inv: "\<forall>kv\<in>set (cache w). K (fst kv) \<and> P (snd kv)"
    and env: "\<forall>n t d r. translate e n t d = Inr r \<longrightarrow> P r"
    and inner: "K inner" "P inner"
    and run: "repl e dest debug lineno inner ch w = (r, w')"
  shows "(\<forall>kv\<in>set (cache w'). K (fst kv) \<and> P (snd kv))
     \<and> (\<forall>out ch'. r = Inr (out, ch') \<longrightarrow> (\<exists>t. out = QUOTE # t @ [QUOTE] \<and> P t))"
proof (cases "py_strip inner = []")
  case True
  with run inv inner show ?thesis by (auto simp: repl_inert)
next
  case ni: False
  show ?thesis
  proof (cases "map_of (cache w) inner")
    case (Some out)
    then have "(inner, out) \<in> set (cache w)" by (rule map_of_SomeD)
    with inv have "P out" by auto
    with ni Some run inv show ?thesis
      by (auto simp: repl_hit split: if_splits)
  next
    case None
    obtain tr w1 where t: "translate_text_frag e inner dest w = (tr, w1)"
      by (cases "translate_text_frag e inner dest w")
    from translate_text_frag_frame[OF t] have c1: "cache w1 = cache w" by simp
    show ?thesis
    proof (cases tr)
      case (Inl x)
      with run repl_miss[OF ni None t, of debug lineno ch] have "w' = w1" "r = Inl x" by simp_all
      with c1 inv show ?thesis by simp
    next
      case (Inr out)
      with t translate_text_frag_answer env inner have "P out" by blast
      from Inr run repl_miss[OF ni None t, of debug lineno ch]
      have "r = Inr (QUOTE # out @ [QUOTE], ch \<or> out \<noteq> inner)"
        and "cache w' = cache w1 @ [(inner, out)]" by (auto split: if_splits)
      with c1 inv inner \<open>P out\<close> show ?thesis by auto
    qed
  qed
qed

lemma sub_pieces_texts:
  assumes env: "\<forall>n t d r. translate e n t d = Inr r \<longrightarrow> P r"
  shows "(\<forall>kv\<in>set (cache w). K (fst kv) \<and> P (snd kv)) \<Longrightarrow>
     (\<forall>inner. Frag inner \<in> set ps \<longrightarrow> K inner \<and> P inner) \<Longrightarrow>
     sub_pieces e dest debug lineno ps ch w = (r, w') \<Longrightarrow>
     (\<forall>kv\<in>set (cache w'). K (fst kv) \<and> P (snd kv))
     \<and> (\<forall>out ch'. r = Inr (out, ch') \<longrightarrow>
           (\<exists>outs. length outs = length (frag_texts ps) \<and> out = refill ps outs \<and> (\<forall>t\<in>set outs. P t)))"
proof (induction ps arbitrary: ch w r w')
  case Nil
  then show ?case by auto
next
  case (Cons p ps)
  show ?case
  proof (cases p)
    case (Lit c)
    obtain r0 w0 where s: "sub_pieces e dest debug lineno ps ch w = (r0, w0)"
      by (cases "sub_pieces e dest debug lineno ps ch w")
    from Cons.prems(2) have fr: "\<forall>inner. Frag inner \<in> set ps \<longrightarrow> K inner \<and> P inner" by simp
    note ih = Cons.IH[OF Cons.prems(1) fr s]
    show ?thesis
    proof (cases r0)
      case (Inl x)
      with Cons.prems(3) Lit s have "w' = w0" "r = Inl x" by simp_all
      with ih show ?thesis by simp
    next
      case (Inr y)
      obtain out0 ch0 where y: "y = (out0, ch0)" by (cases y)
      with Cons.prems(3) Lit s Inr have w: "w' = w0" "r = Inr (c # out0, ch0)" by simp_all
      from ih Inr y obtain outs where "length outs = length (frag_texts ps)" "out0 = refill ps outs"
        "\<forall>t\<in>set outs. P t" by blast
      with w ih Lit show ?thesis by (auto intro!: exI[of _ outs])
    qed
  next
    case (Frag inner)
    obtain r1 w1 where rp: "repl e dest debug lineno inner ch w = (r1, w1)"
      by (cases "repl e dest debug lineno inner ch w")
    from Cons.prems(2) Frag have kp: "K inner" "P inner"
      and fr: "\<forall>inner. Frag inner \<in> set ps \<longrightarrow> K inner \<and> P inner" by simp_all
    note rt = repl_texts[OF Cons.prems(1) env kp rp]
    show ?thesis
    proof (cases r1)
      case (Inl x)
      with Cons.prems(3) Frag rp have "w' = w1" "r = Inl x" by simp_all
      with rt show ?thesis by simp
    next
      case (Inr y)
      obtain o1 ch1 where y: "y = (o1, ch1)" by (cases y)
      from rt Inr y obtain t where t: "o1 = QUOTE # t @ [QUOTE]" "P t" by blast
      obtain r2 w2 where s: "sub_pieces e dest debug lineno ps ch1 w1 = (r2, w2)"
        by (cases "sub_pieces e dest debug lineno ps ch1 w1")
      from rt have inv1: "\<forall>kv\<in>set (cache w1). K (fst kv) \<and> P (snd kv)" by simp
      note ih = Cons.IH[OF inv1 fr s]
      show ?thesis
      proof (cases r2)
        case (Inl x)
        with Cons.prems(3) Frag rp Inr y s have "w' = w2" "r = Inl x" by simp_all
        with ih show ?thesis by simp
      next
        case r2: (Inr z)
        obtain out0 ch0 where z: "z = (out0, ch0)" by (cases z)
        with Cons.prems(3) Frag rp Inr y s r2 have w: "w' = w2" "r = Inr (o1 @ out0, ch0)"
          by simp_all
        from ih r2 z obtain outs where "length outs = length (frag_texts ps)" "out0 = refill ps outs"
          "\<forall>t\<in>set outs. P t" by blast
        with w ih Frag t show ?thesis by (auto intro!: exI[of _ "t # outs"])
      qed
    qed
  qed
qed

lemma translate_line_texts:
  assumes env: "\<forall>n t d r. translate e n t d = Inr r \<longrightarrow> P r"
    and inv: "\<forall>kv\<in>set (cache w). K (fst kv) \<and> P (snd kv)"
    and frags: "\<forall>inner\<in>set (frag_texts (quote_matches line)). K inner \<and> P inner"
    and run: "translate_line e line dest debug lineno w = (r, w')"
  shows "(\<forall>kv\<in>set (cache w'). K (fst kv) \<and> P (snd kv))
     \<and> (\<forall>new_line chg. r = Inr (new_line, chg) \<longrightarrow>
           (\<exists>outs. length outs = length (frag_texts (quote_matches line))
               \<and> new_line = refill (quote_matches line) outs \<and> (\<forall>t\<in>set outs. P t)))"
proof (cases "QUOTE \<in> set line")
  case True
  with run have s: "sub_pieces e dest debug lineno (quote_matches line) False w = (r, w')"
    by (simp add: translate_line_def)
  from frags have "\<forall>inner. Frag inner \<in> set (quote_matches line) \<longrightarrow> K inner \<and> P inner"
    by (simp add: frag_texts_set)
  from sub_pieces_texts[OF env inv this s] show ?thesis .
next
  case False
  with run have "w' = w" "r = Inr (line, False)" by (simp_all add: translate_line_def)
  with inv False show ?thesis
    by (auto simp: quote_matches_plain refill_lits frag_texts_lits)
qed

lemma line_step_texts:
  assumes env: "\<forall>n t d r. translate e n t d = Inr r \<longrightarrow> P r"
    and inv: "\<forall>kv\<in>set (cache w). K (fst kv) \<and> P (snd kv)"
    and frags: "\<forall>inner\<in>set (fragments_of line). K inner \<and> P inner"
    and run: "line_step e dest debug cf line (t, c, s) w = (r, w')"
  shows "(\<forall>kv\<in>set (cache w'). K (fst kv) \<and> P (snd kv))
     \<and> (\<forall>loc'. r = Inr loc' \<longrightarrow>
           (\<exists>outs. length outs = length (fragments_of line) \<and> (\<forall>t\<in>set outs. P t)
               \<and> fout w' = fout w @ rewritten line outs))"
  using run
proof (cases rule: line_step_cases)
  case interrupted
  with inv show ?thesis by simp
next
  case (raised x w1)
  from translate_line_texts[OF env inv frags[unfolded fragments_of_def] raised(3)] raised(4,5)
  show ?thesis by simp
next
  case (written chunk c1 w1 w2 s1)
  have tl: "(\<forall>kv\<in>set (cache w1). K (fst kv) \<and> P (snd kv)) \<and> fout w1 = fout w
     \<and> (\<exists>outs. length outs = length (fragments_of line) \<and> (\<forall>t\<in>set outs. P t)
           \<and> chunk = rewritten line outs)"
  proof (cases "QUOTE \<in> set line")
    case True
    with written(2) obtain new_line chg where
      t: "translate_line e (rstrip_newlines line) dest debug (Some (t + 1)) w = (Inr (new_line, chg), w1)"
      and ch: "chunk = new_line @ [NEWLINE]" by auto
    from translate_line_texts[OF env inv frags[unfolded fragments_of_def] t] ch True
      translate_line_effects[OF t]
    show ?thesis
      by (auto simp: fragments_of_def rewritten_def)
  next
    case False
    with written(2) have "w1 = w" "chunk = line" by auto
    with False inv show ?thesis
      by (auto simp: rewritten_def fragments_of_plain)
  qed
  have sv: "cache w' = cache w1 \<and> (\<forall>loc'. r = Inr loc' \<longrightarrow> fout w' = fout w1 @ chunk)"
  proof (cases "float_sub e (time_time e (t + 1)) s \<ge> CACHE_SAVE_INTERVAL_SEC")
    case True
    with written(3) obtain sr where
      s: "save_cache cf (cache w1) (w1\<lparr>fout := fout w1 @ chunk\<rparr>) = (sr, w2)"
      and r: "case sr of Inl x \<Rightarrow> r = Inl x \<and> w' = w2
                   | Inr u \<Rightarrow> s1 = time_time e (t + 1)
                       \<and> r = Inr (t + 1, c1, s1)
                       \<and> w' = (if (t + 1) mod PROGRESS_EVERY_LINES = 0 \<and> \<not> debug
                               then w2\<lparr>diag := diag w2 @ [Progress (t + 1) c1 (length (cache w2))]\<rparr>
                               else w2)" by auto
    from save_cache_frame[OF s] r show ?thesis
      by (cases sr) (auto split: if_splits)
  next
    case False
    with written(3) show ?thesis by (auto split: if_splits)
  qed
  from tl sv show ?thesis by auto
qed

lemma line_loop_texts:
  assumes env: "\<forall>n t d r. translate e n t d = Inr r \<longrightarrow> P r"
  shows "(\<forall>kv\<in>set (cache w). K (fst kv) \<and> P (snd kv)) \<Longrightarrow>
     (\<forall>line\<in>set lines. \<forall>inner\<in>set (fragments_of line). K inner \<and> P inner) \<Longrightarrow>
     line_loop e dest debug cf lines loc w = (r, w') \<Longrightarrow>
     (\<forall>kv\<in>set (cache w'). K (fst kv) \<and> P (snd kv))
     \<and> (\<forall>loc'. r = Inr loc' \<longrightarrow>
           (\<exists>outss. list_all2 (\<lambda>line outs. length outs = length (fragments_of line)
                                   \<and> (\<forall>t\<in>set outs. P t)) lines outss
               \<and> fout w' = fout w @ concat (map2 rewritten lines outss)))"
proof (induction lines arbitrary: loc w)
  case Nil
  then show ?case by auto
next
  case (Cons line lines)
  obtain t c s where loc: "loc = (t, c, s)" by (cases loc)
  obtain r1 w1 where st: "line_step e dest debug cf line (t, c, s) w = (r1, w1)"
    by (cases "line_step e dest debug cf line (t, c, s) w")
  from Cons.prems(2) have f1: "\<forall>inner\<in>set (fragments_of line). K inner \<and> P inner"
    and fr: "\<forall>line\<in>set lines. \<forall>inner\<in>set (fragments_of line). K inner \<and> P inner" by simp_all
  note s1 = line_step_texts[OF env Cons.prems(1) f1 st]
  show ?case
  proof (cases r1)
    case (Inl x)
    with Cons.prems(3) loc st have "w' = w1" "r = Inl x" by simp_all
    with s1 show ?thesis by simp
  next
    case (Inr loc1)
    with Cons.prems(3) loc st have rest: "line_loop e dest debug cf lines loc1 w1 = (r, w')" by simp
    from s1 have inv1: "\<forall>kv\<in>set (cache w1). K (fst kv) \<and> P (snd kv)" by simp
    note ih = Cons.IH[OF inv1 fr rest]
    from s1 Inr obtain outs where o: "length outs = length (fragments_of line)" "\<forall>t\<in>set outs. P t"
      "fout w1 = fout w @ rewritten line outs" by blast
    show ?thesis
    proof (intro conjI allI impI)
      from ih show "\<forall>kv\<in>set (cache w'). K (fst kv) \<and> P (snd kv)" by simp
    next
      fix loc' assume "r = Inr loc'"
      with ih obtain outss where os:
        "list_all2 (\<lambda>line outs. length outs = length (fragments_of line) \<and> (\<forall>t\<in>set outs. P t)) lines outss"
        "fout w' = fout w1 @ concat (map2 rewritten lines outss)" by blast
      with o show "\<exists>outss. list_all2 (\<lambda>line outs. length outs = length (fragments_of line)
                                   \<and> (\<forall>t\<in>set outs. P t)) (line # lines) outss
               \<and> fout w' = fout w @ concat (map2 rewritten (line # lines) outss)"
        by (intro exI[of _ "outs # outss"]) simp
    qed
  qed
qed

section \<open>Lines in, lines out\<close>

lemma split_single: "l \<noteq> [] \<Longrightarrow> NEWLINE \<notin> set (butlast l) \<Longrightarrow> split_keepends l = [l]"
proof (induction l)
  case Nil
  then show ?case by simp
next
  case (Cons c cs)
  show ?case
  proof (cases cs)
    case Nil
    then show ?thesis by simp
  next
    case (Cons d ds)
    with Cons.prems have "c \<noteq> NEWLINE" "NEWLINE \<notin> set (butlast cs)" by auto
    with Cons.IH Cons show ?thesis by simp
  qed
qed

lemma split_terminated:
  "l \<noteq> [] \<Longrightarrow> NEWLINE \<notin> set (butlast l) \<Longrightarrow> last l = NEWLINE \<Longrightarrow>
     split_keepends (l @ rest) = l # split_keepends rest"
proof (induction l)
  case Nil
  then show ?case by simp
next
  case (Cons c cs)
  show ?case
  proof (cases cs)
    case Nil
    with Cons.prems show ?thesis by simp
  next
    case (Cons d ds)
    with Cons.prems have "c \<noteq> NEWLINE" "NEWLINE \<notin> set (butlast cs)" "last cs = NEWLINE" by auto
    with Cons.IH Cons show ?thesis by simp
  qed
qed

lemma split_proper: "proper_lines ls \<Longrightarrow> split_keepends (concat ls) = ls"
proof (induction ls rule: proper_lines.induct)
  case 1
  then show ?case by simp
next
  case (2 l)
  then show ?case by (simp add: split_single)
next
  case (3 l v va)
  then show ?case by (simp add: split_terminated)
qed

lemma proper_split: "proper_lines (split_keepends t)"
proof (induction t)
  case Nil
  then show ?case by simp
next
  case (Cons c cs)
  show ?case
  proof (cases "c = NEWLINE")
    case True
    with Cons show ?thesis by (cases "split_keepends cs") simp_all
  next
    case False
    show ?thesis
    proof (cases "split_keepends cs")
      case Nil
      with False show ?thesis by simp
    next
      case (Cons l ls)
      with Cons.IH have p: "proper_lines (l # ls)" by simp
      then have "l \<noteq> []" by (cases ls) simp_all
      with p False Cons show ?thesis by (cases ls) (simp_all split: if_splits)
    qed
  qed
qed

lemma rstrip_newlines_terminated:
  assumes "NEWLINE \<notin> set body"
  shows "rstrip_newlines (body @ [NEWLINE]) = body"
proof (cases body rule: rev_cases)
  case Nil
  then show ?thesis by (simp add: rstrip_newlines_def)
next
  case (snoc ys y)
  with assms show ?thesis by (simp add: rstrip_newlines_def)
qed

lemma rstrip_newlines_clean: "NEWLINE \<notin> set l \<Longrightarrow> rstrip_newlines l = l"
proof (cases l rule: rev_cases)
  case Nil
  then show ?thesis by (simp add: rstrip_newlines_def)
next
  case (snoc ys y)
  assume "NEWLINE \<notin> set l"
  with snoc show ?thesis by (simp add: rstrip_newlines_def)
qed

lemma terminated_snoc: "line \<noteq> [] \<Longrightarrow> last line = NEWLINE \<Longrightarrow> line = butlast line @ [NEWLINE]"
  by (metis append_butlast_last_id)

lemma rewritten_own:
  assumes "QUOTE \<notin> set line \<or> (line \<noteq> [] \<and> last line = NEWLINE \<and> NEWLINE \<notin> set (butlast line))"
  shows "rewritten line (fragments_of line) = line"
proof (cases "QUOTE \<in> set line")
  case False
  then show ?thesis by (simp add: rewritten_def)
next
  case True
  with assms have l: "line = butlast line @ [NEWLINE]" and b: "NEWLINE \<notin> set (butlast line)"
    using terminated_snoc by blast+
  have "rstrip_newlines line = butlast line"
    using rstrip_newlines_terminated[OF b] l by simp
  with True l show ?thesis
    by (simp add: rewritten_def fragments_of_def refill_own)
qed

lemma lit_in_matches: "Lit c \<in> set (quote_matches line) \<Longrightarrow> c \<in> set line"
proof (induction line rule: quote_matches.induct)
  case 1
  then show ?case by simp
next
  case (2 d cs)
  show ?case
  proof (cases "d = QUOTE")
    case False
    with 2 show ?thesis by auto
  next
    case q: True
    show ?thesis
    proof (cases "find_close cs")
      case None
      with q 2 show ?thesis by auto
    next
      case (Some x)
      obtain i rest where x: "x = (i, rest)" by (cases x)
      from Some x find_close_Some have cs: "cs = i @ QUOTE # rest" by blast
      from "2.prems" q Some x have "Lit c \<in> set (quote_matches rest)" by simp
      from "2.IH"(2)[OF q Some x[symmetric] this] cs show ?thesis by auto
    qed
  qed
qed

lemma refill_newline_free:
  "(\<forall>c. Lit c \<in> set ps \<longrightarrow> c \<noteq> NEWLINE) \<Longrightarrow> (\<forall>i. Frag i \<in> set ps \<longrightarrow> NEWLINE \<notin> set i) \<Longrightarrow>
   (\<forall>t\<in>set outs. NEWLINE \<notin> set t) \<Longrightarrow> NEWLINE \<notin> set (refill ps outs)"
proof (induction ps outs rule: refill.induct)
  case (1 outs)
  then show ?case by simp
next
  case (2 c ps outs)
  then show ?case by auto
next
  case (3 inner ps)
  then show ?case by (auto simp: QUOTE_def NEWLINE_def)
next
  case (4 inner ps out outs)
  then show ?case by (auto simp: QUOTE_def NEWLINE_def)
qed

lemma refill_matches_newline_free:
  assumes "NEWLINE \<notin> set body" and "\<forall>t\<in>set outs. NEWLINE \<notin> set t"
  shows "NEWLINE \<notin> set (refill (quote_matches body) outs)"
proof (rule refill_newline_free)
  show "\<forall>c. Lit c \<in> set (quote_matches body) \<longrightarrow> c \<noteq> NEWLINE"
    using lit_in_matches assms(1) by blast
  show "\<forall>i. Frag i \<in> set (quote_matches body) \<longrightarrow> NEWLINE \<notin> set i"
    using frag_in_matches by blast
  show "\<forall>t\<in>set outs. NEWLINE \<notin> set t" by (rule assms(2))
qed

lemma rewritten_proper:
  assumes "line \<noteq> []" and "NEWLINE \<notin> set (butlast line)" and "\<forall>t\<in>set outs. NEWLINE \<notin> set t"
  shows "rewritten line outs \<noteq> [] \<and> NEWLINE \<notin> set (butlast (rewritten line outs))
     \<and> (last line = NEWLINE \<longrightarrow> last (rewritten line outs) = NEWLINE)"
proof (cases "QUOTE \<in> set line")
  case False
  with assms show ?thesis by (simp add: rewritten_def)
next
  case True
  have "NEWLINE \<notin> set (rstrip_newlines line)"
  proof (cases "last line = NEWLINE")
    case True
    with assms(1) have l: "line = butlast line @ [NEWLINE]" by (rule terminated_snoc)
    from rstrip_newlines_terminated[OF assms(2)] l have "rstrip_newlines line = butlast line" by simp
    with assms(2) show ?thesis by simp
  next
    case False
    with assms(1,2) have "NEWLINE \<notin> set line"
      by (metis append_butlast_last_id set_ConsD set_append Un_iff empty_set empty_iff)
    with rstrip_newlines_subset[of line] show ?thesis by blast
  qed
  from refill_matches_newline_free[OF this assms(3)] True show ?thesis
    by (simp add: rewritten_def)
qed

lemma rewritten_lines_proper:
  "list_all2 (\<lambda>line outs. length outs = length (fragments_of line) \<and> (\<forall>t\<in>set outs. NEWLINE \<notin> set t))
       lines outss \<Longrightarrow>
   proper_lines lines \<Longrightarrow> proper_lines (map2 rewritten lines outss)"
proof (induction lines outss rule: list_all2_induct)
  case Nil
  then show ?case by simp
next
  case (Cons line lines outs outss)
  show ?case
  proof (cases lines)
    case Nil
    with Cons.hyps(2) have "outss = []" by simp
    with Nil Cons.prems Cons.hyps(1) rewritten_proper[of line outs] show ?thesis by simp
  next
    case c: (Cons l2 ls)
    with Cons.hyps(2) obtain o2 os where os: "outss = o2 # os" by (cases outss) auto
    from Cons.prems c have p: "line \<noteq> []" "NEWLINE \<notin> set (butlast line)" "last line = NEWLINE"
      "proper_lines lines" by simp_all
    from rewritten_proper[OF p(1,2)] Cons.hyps(1) p(3)
    have "rewritten line outs \<noteq> []" "NEWLINE \<notin> set (butlast (rewritten line outs))"
      "last (rewritten line outs) = NEWLINE" by simp_all
    with Cons.IH[OF p(4)] c os show ?thesis by simp
  qed
qed

lemmas run_simps = line_step_def translate_line_def repl_def translate_text_frag_def
  failing_stub_def fresh_world_def ustr_of_def QUOTE_def NEWLINE_def RETRY_LIMIT_def
  py_strip_def py_isspace_def rstrip_newlines_def CACHE_SAVE_INTERVAL_SEC_def
  PROGRESS_EVERY_LINES_def Let_def upt_rec

lemmas main_simps = main_def is_file_def load_cache_def process_file_def read_input_def
     write_output_def latin1_decoding_def latin1_encoding_def open_r_def open_w_def replace_def
     save_cache_def tmp_path_def json_chunks_def encode_basestring_def escape_char_def BACKSLASH_def
     encodable_def utf8_encode_char_def

section \<open>The fallback after the last retry\<close>

lemma translate_text_frag_exhausted:
  assumes fails: "\<forall>i<RETRY_LIMIT. translate e (length (calls w) + i) text d = Inl (Exception (msg i))"
    and waits: "\<forall>i<RETRY_LIMIT. \<not> sleep_interrupted e (length (sleeps w) + i)"
  shows "translate_text_frag e text d w =
     (Inr text, (after_failures w text d msg [0..<RETRY_LIMIT])
                  \<lparr>diag := diag (after_failures w text d msg [0..<RETRY_LIMIT]) @ [GiveUpWarn]\<rparr>)"
proof -
  have f: "\<forall>i<length [0..<RETRY_LIMIT]. translate e (length (calls w) + i) text d = Inl (Exception (msg i))"
    using fails by simp
  have s: "\<forall>i<length [0..<RETRY_LIMIT]. \<not> sleep_interrupted e (length (sleeps w) + i)"
    using waits by simp
  have "attempt_loop e text d ([0..<RETRY_LIMIT] @ []) w
      = attempt_loop e text d [] (after_failures w text d msg [0..<RETRY_LIMIT])"
    by (rule attempt_loop_failures[OF f s])
  then show ?thesis by (simp add: translate_text_frag_def)
qed

lemma map_of_append_Some: "map_of xs k = Some v \<Longrightarrow> map_of (xs @ ys) k = Some v"
  by (simp add: map_add_Some_iff)

lemma line_loop_cached_key:
  assumes "map_of (cache w) k = Some v" and "line_loop e dest debug cf lines loc w = (r, w')"
  shows "k \<notin> fst ` set (drop (length (calls w)) (calls w')) \<and> map_of (cache w') k = Some v"
proof -
  from line_loop_effects[OF assms(2)] obtain cs new where
    c: "calls w' = calls w @ cs" "cache w' = cache w @ new"
    "\<forall>c\<in>set cs. py_strip (fst c) \<noteq> [] \<and> map_of (cache w) (fst c) = None" by blast
  from c(1,3) assms(1) have "k \<notin> fst ` set (drop (length (calls w)) (calls w'))" by auto
  moreover from c(2) assms(1) have "map_of (cache w') k = Some v" by (simp add: map_of_append_Some)
  ultimately show ?thesis by simp
qed

text \<open>
  Claim C10. When every attempt for a fragment that is neither inert nor cached fails,
  the fragment is emitted unchanged and the original text is stored in the cache under
  itself. From then on the text is a key: a later occurrence is answered from the cache
  without a call, no later line of the run calls the translator with it and the entry
  stays; and a flush of that cache (keys distinct, all text encodable, location free)
  succeeds and loads back as the same mapping, so a later run starts with the entry.
\<close>

theorem fallback_is_cached:
  assumes ni: "py_strip inner \<noteq> []" and miss: "map_of (cache w) inner = None"
    and fails: "\<forall>i<RETRY_LIMIT. translate e (length (calls w) + i) inner dest = Inl (Exception (msg i))"
    and waits: "\<forall>i<RETRY_LIMIT. \<not> sleep_interrupted e (length (sleeps w) + i)"
    and run: "repl e dest debug lineno inner changed w = (res, w1)"
  shows "res = Inr (QUOTE # inner @ [QUOTE], changed)
     \<and> cache w1 = cache w @ [(inner, inner)]
     \<and> map_of (cache w1) inner = Some inner
     \<and> calls w1 = calls w @ replicate RETRY_LIMIT (inner, dest)
     \<and> (\<forall>e' d' dbg ln ch w2 r w3.
           map_of (cache w2) inner = Some inner \<longrightarrow> repl e' d' dbg ln inner ch w2 = (r, w3) \<longrightarrow>
           r = Inr (QUOTE # inner @ [QUOTE], ch) \<and> calls w3 = calls w2)
     \<and> (\<forall>e' d' dbg cf lines loc w2 r w3.
           map_of (cache w2) inner = Some inner \<longrightarrow> line_loop e' d' dbg cf lines loc w2 = (r, w3) \<longrightarrow>
           inner \<notin> fst ` set (drop (length (calls w2)) (calls w3)) \<and> map_of (cache w3) inner = Some inner)
     \<and> (\<forall>cf w2.
           distinct (map fst (cache w1)) \<and> dict_encodable (cache w1)
           \<and> free_or_file (files w2) (tmp_path cf) \<and> files w2 cf \<noteq> Some Directory \<longrightarrow>
           (\<exists>w3. save_cache cf (cache w1) w2 = (Inr (), w3)
                \<and> load_cache cf w3 = (Inr (StrDict (cache w1)), w3)))"
proof -
  let ?w0 = "after_failures w inner dest msg [0..<RETRY_LIMIT]"
  let ?wt = "?w0\<lparr>diag := diag ?w0 @ [GiveUpWarn]\<rparr>"
  have t: "translate_text_frag e inner dest w = (Inr inner, ?wt)"
    by (rule translate_text_frag_exhausted[OF fails waits])
  from repl_miss[OF ni miss t, of debug lineno changed] run
  have res: "res = Inr (QUOTE # inner @ [QUOTE], changed)"
    and c1: "cache w1 = cache w @ [(inner, inner)]"
    and k1: "calls w1 = calls w @ replicate RETRY_LIMIT (inner, dest)"
    by (auto simp: after_failures_def split: if_splits)
  from c1 miss have m1: "map_of (cache w1) inner = Some inner"
    by (simp add: map_add_def)
  have later: "r = Inr (QUOTE # inner @ [QUOTE], ch) \<and> calls w3 = calls w2"
    if "map_of (cache w2) inner = Some inner" "repl e' d' dbg ln inner ch w2 = (r, w3)"
    for e' d' dbg ln ch w2 r w3
    using that ni by (auto simp: repl_hit split: if_splits)
  have rest: "inner \<notin> fst ` set (drop (length (calls w2)) (calls w3)) \<and> map_of (cache w3) inner = Some inner"
    if "map_of (cache w2) inner = Some inner" "line_loop e' d' dbg cf lines loc w2 = (r, w3)"
    for e' d' dbg cf lines loc w2 r w3
    using line_loop_cached_key[OF that] .
  have future: "\<exists>w3. save_cache cf (cache w1) w2 = (Inr (), w3)
                \<and> load_cache cf w3 = (Inr (StrDict (cache w1)), w3)"
    if "distinct (map fst (cache w1)) \<and> dict_encodable (cache w1)
           \<and> free_or_file (files w2) (tmp_path cf) \<and> files w2 cf \<noteq> Some Directory"
    for cf w2
  proof -
    obtain r w3 where s: "save_cache cf (cache w1) w2 = (r, w3)"
      by (cases "save_cache cf (cache w1) w2")
    from that have "distinct (map fst (cache w1))" "dict_encodable (cache w1)"
      "free_or_file (files w2) (tmp_path cf)" "files w2 cf \<noteq> Some Directory" by simp_all
    from save_then_load[OF this s] s show ?thesis by auto
  qed
  have l: "\<forall>e' d' dbg ln ch w2 r w3.
           map_of (cache w2) inner = Some inner \<longrightarrow> repl e' d' dbg ln inner ch w2 = (r, w3) \<longrightarrow>
           r = Inr (QUOTE # inner @ [QUOTE], ch) \<and> calls w3 = calls w2"
    using later by blast
  have r: "\<forall>e' d' dbg cf lines loc w2 r w3.
           map_of (cache w2) inner = Some inner \<longrightarrow> line_loop e' d' dbg cf lines loc w2 = (r, w3) \<longrightarrow>
           inner \<notin> fst ` set (drop (length (calls w2)) (calls w3)) \<and> map_of (cache w3) inner = Some inner"
    using rest by blast
  have f: "\<forall>cf w2.
           distinct (map fst (cache w1)) \<and> dict_encodable (cache w1)
           \<and> free_or_file (files w2) (tmp_path cf) \<and> files w2 cf \<noteq> Some Directory \<longrightarrow>
           (\<exists>w3. save_cache cf (cache w1) w2 = (Inr (), w3)
                \<and> load_cache cf w3 = (Inr (StrDict (cache w1)), w3))"
    using future by blast
  show ?thesis
    by (intro conjI) (fact res c1 m1 k1 l r f)+
qed


theorem fallback_is_cached_witness:
  "fst (repl (failing_stub 5 (\<lambda>t. ustr_of ''hola'')) (ustr_of ''es'') False None (ustr_of ''hi'') False
         (fresh_world Map.empty)) = Inr (ustr_of ''\"hi\"'', False)
   \<and> cache (snd (repl (failing_stub 5 (\<lambda>t. ustr_of ''hola'')) (ustr_of ''es'') False None (ustr_of ''hi'') False
         (fresh_world Map.empty))) = [(ustr_of ''hi'', ustr_of ''hi'')]
   \<and> length (calls (snd (repl (failing_stub 5 (\<lambda>t. ustr_of ''hola'')) (ustr_of ''es'') False None
         (ustr_of ''hi'') False (fresh_world Map.empty)))) = 5
   \<and> calls (snd (repl (failing_stub 0 (\<lambda>t. ustr_of ''hola'')) (ustr_of ''es'') False None (ustr_of ''hi'') False
         (snd (repl (failing_stub 5 (\<lambda>t. ustr_of ''hola'')) (ustr_of ''es'') False None (ustr_of ''hi'') False
            (fresh_world Map.empty)))))
       = calls (snd (repl (failing_stub 5 (\<lambda>t. ustr_of ''hola'')) (ustr_of ''es'') False None
            (ustr_of ''hi'') False (fresh_world Map.empty)))
   \<and> (\<exists>w3. save_cache ''in.cache_es.json'' [(ustr_of ''hi'', ustr_of ''hi'')] (fresh_world Map.empty)
               = (Inr (), w3)
          \<and> load_cache ''in.cache_es.json'' w3 = (Inr (StrDict [(ustr_of ''hi'', ustr_of ''hi'')]), w3))"
proof -
  let ?e = "failing_stub 5 (\<lambda>t. ustr_of ''hola'')" and ?again = "failing_stub 0 (\<lambda>t. ustr_of ''hola'')"
  let ?hi = "ustr_of ''hi''" and ?es = "ustr_of ''es''" and ?w = "fresh_world Map.empty"
  let ?run = "repl ?e ?es False None ?hi False ?w"
  have ni: "py_strip ?hi \<noteq> []" by (simp add: py_strip_def py_isspace_def ustr_of_def)
  have miss: "map_of (cache ?w) ?hi = None" by (simp add: fresh_world_def)
  have fails: "\<forall>i<RETRY_LIMIT. translate ?e (length (calls ?w) + i) ?hi ?es
      = Inl (Exception ((\<lambda>i. ''timed out'') i))"
    by (simp add: failing_stub_def fresh_world_def RETRY_LIMIT_def)
  have waits: "\<forall>i<RETRY_LIMIT. \<not> sleep_interrupted ?e (length (sleeps ?w) + i)"
    by (simp add: failing_stub_def)
  note th = fallback_is_cached[OF ni miss fails waits surjective_pairing, of False None False]
  from th have res: "fst ?run = Inr (QUOTE # ?hi @ [QUOTE], False)"
    and c1: "cache (snd ?run) = cache ?w @ [(?hi, ?hi)]"
    and m1: "map_of (cache (snd ?run)) ?hi = Some ?hi"
    and k1: "calls (snd ?run) = calls ?w @ replicate RETRY_LIMIT (?hi, ?es)"
    by blast+
  from th have later: "\<forall>e' d' dbg ln ch w2 r w3.
           map_of (cache w2) ?hi = Some ?hi \<longrightarrow> repl e' d' dbg ln ?hi ch w2 = (r, w3) \<longrightarrow>
           r = Inr (QUOTE # ?hi @ [QUOTE], ch) \<and> calls w3 = calls w2"
    by blast
  from th have future: "\<forall>cf w2.
           distinct (map fst (cache (snd ?run))) \<and> dict_encodable (cache (snd ?run))
           \<and> free_or_file (files w2) (tmp_path cf) \<and> files w2 cf \<noteq> Some Directory \<longrightarrow>
           (\<exists>w3. save_cache cf (cache (snd ?run)) w2 = (Inr (), w3)
                \<and> load_cache cf w3 = (Inr (StrDict (cache (snd ?run))), w3))"
    by blast
  have c: "cache (snd ?run) = [(?hi, ?hi)]" using c1 by (simp add: fresh_world_def)
  have a: "fst ?run = Inr (ustr_of ''\"hi\"'', False)"
    using res by (simp add: ustr_of_def QUOTE_def)
  have b: "length (calls (snd ?run)) = 5"
    using k1 by (simp add: fresh_world_def RETRY_LIMIT_def)
  have d: "calls (snd (repl ?again ?es False None ?hi False (snd ?run))) = calls (snd ?run)"
    using later m1 by (metis prod.collapse)
  have pre: "distinct (map fst (cache (snd ?run))) \<and> dict_encodable (cache (snd ?run))
           \<and> free_or_file (files ?w) (tmp_path ''in.cache_es.json'')
           \<and> files ?w ''in.cache_es.json'' \<noteq> Some Directory"
    unfolding c
    by (simp add: dict_encodable_def encodable_chars ustr_of_def free_or_file_def fresh_world_def)
  from future pre have f: "\<exists>w3. save_cache ''in.cache_es.json'' (cache (snd ?run)) ?w = (Inr (), w3)
                \<and> load_cache ''in.cache_es.json'' w3 = (Inr (StrDict (cache (snd ?run))), w3)"
    by blast
  from a c b d f[unfolded c] show ?thesis by blast
qed

section \<open>The whole file: opening, the loop, closing\<close>

lemma charmap_encode_latin1:
  "charmap_encode latin1_encoding Ignore t = Inr (map of_nat (filter (\<lambda>c. c < 256) t))"
  by (induction t) (simp_all add: latin1_encoding_def)

lemma write_output_bytes: "write_output t = Inr (map of_nat (filter (\<lambda>c. c < 256) t))"
  by (simp add: write_output_def charmap_encode_latin1)

lemma read_input_text: "read_input bs = Inr (universal_newlines (map unat bs))"
  by (simp add: read_input_def charmap_decode_latin1)


lemma charmap_encode_ignore:
  "charmap_encode table Ignore t = Inr (map (the \<circ> table) (filter (\<lambda>c. table c \<noteq> None) t))"
  by (induction t) (auto split: option.splits)



lemma universal_newlines_set: "set (universal_newlines s) \<subseteq> insert NEWLINE (set s)"
  by (induction s rule: universal_newlines.induct) auto

lemma input_chars_small:
  assumes "c \<in> set (universal_newlines (map unat (bs :: byte list)))"
  shows "c < 256"
proof -
  from assms universal_newlines_set have "c = NEWLINE \<or> c \<in> set (map unat bs)" by blast
  then show ?thesis
  proof
    assume "c = NEWLINE" then show ?thesis by (simp add: NEWLINE_def)
  next
    assume "c \<in> set (map unat bs)"
    then obtain b :: byte where "c = unat b" by auto
    moreover have "unat b < 2 ^ LENGTH(8)" by (rule unsigned_less)
    ultimately show ?thesis by simp
  qed
qed

lemma split_keepends_set: "l \<in> set (split_keepends t) \<Longrightarrow> set l \<subseteq> set t"
proof -
  assume "l \<in> set (split_keepends t)"
  then have "set l \<subseteq> set (concat (split_keepends t))" by auto
  then show ?thesis by (simp add: split_keepends_concat)
qed

lemma fragments_of_chars:
  assumes "inner \<in> set (fragments_of line)"
  shows "set inner \<subseteq> set line"
proof -
  from assms have "Frag inner \<in> set (quote_matches (rstrip_newlines line))"
    by (simp add: fragments_of_def frag_texts_set)
  from frag_in_matches[OF this] rstrip_newlines_subset[of line] show ?thesis by blast
qed

lemma input_fragments_encodable:
  assumes "line \<in> set (split_keepends (universal_newlines (map unat (bs :: byte list))))"
    and "inner \<in> set (fragments_of line)"
  shows "encodable inner"
  unfolding encodable_chars
proof
  fix c assume "c \<in> set inner"
  with fragments_of_chars[OF assms(2)] split_keepends_set[OF assms(1)]
  have "c \<in> set (universal_newlines (map unat bs))" by blast
  then have "c < 256" by (rule input_chars_small)
  then show "c < 1114112 \<and> \<not> (55296 \<le> c \<and> c \<le> 57343)" by simp
qed

lemma process_file_opened:
  assumes "open_r (files w path) = Inr bs" and "open_w (files w out_path) = Inr mk"
  shows "process_file e path dest debug out_path cf t0 w =
     (case line_loop e dest debug cf
             (split_keepends (universal_newlines (map unat (if path = out_path then [] else bs))))
             (0, 0, t0)
             (w\<lparr>files := (files w)(out_path \<mapsto> mk []), fout := []\<rparr>) of
        (res, w2) \<Rightarrow>
          (res, w2\<lparr>files := (files w2)(out_path \<mapsto>
                      mk (map of_nat (filter (\<lambda>c. c < 256) (fout w2))))\<rparr>))"
  using assms
  by (simp add: process_file_def read_input_text write_output_bytes Let_def split: prod.splits)

lemma process_file_cases:
  assumes "process_file e path dest debug out_path cf t0 w = (res, w4)"
  obtains (closed) m where "res = Inl (Exception m)" "w4 = w"
  | (opened) bs mk w2 where "open_r (files w path) = Inr bs" "open_w (files w out_path) = Inr mk"
      "line_loop e dest debug cf
          (split_keepends (universal_newlines (map unat (if path = out_path then [] else bs))))
          (0, 0, t0) (w\<lparr>files := (files w)(out_path \<mapsto> mk []), fout := []\<rparr>) = (res, w2)"
      "w4 = w2\<lparr>files := (files w2)(out_path \<mapsto> mk (map of_nat (filter (\<lambda>c. c < 256) (fout w2))))\<rparr>"
proof (cases "open_r (files w path)")
  case (Inl x)
  with open_r_exn obtain m where "x = Exception m" by blast
  with Inl assms have "res = Inl (Exception m)" "w4 = w" by (auto simp: process_file_def)
  then show ?thesis by (rule closed)
next
  case r: (Inr bs)
  show ?thesis
  proof (cases "open_w (files w out_path)")
    case (Inl x)
    with open_w_exn obtain m where "x = Exception m" by blast
    with Inl r assms have "res = Inl (Exception m)" "w4 = w" by (auto simp: process_file_def)
    then show ?thesis by (rule closed)
  next
    case (Inr mk)
    from assms process_file_opened[OF r Inr, of e dest debug cf t0] opened[OF r Inr]
    show ?thesis by (auto split: prod.splits)
  qed
qed


lemma load_cache_world: "snd (load_cache cf w) = w"
  by (auto simp: load_cache_def split: sum.splits exn.splits bool.splits)

lemma save_cache_flushable:
  assumes "save_cache cf d w = (Inr u, w')"
  shows "flushable cf (files w')"
proof -
  from assms have "save_cache cf d w = (Inr (), w')" by simp
  then show ?thesis
    using tmp_path_neq[of cf]
    by (auto elim!: save_cache_returned simp: flushable_def free_or_file_def)
qed

lemma flushable_other:
  "p \<noteq> cf \<Longrightarrow> p \<noteq> tmp_path cf \<Longrightarrow> flushable cf (fs(p := n)) = flushable cf fs"
  by (simp add: flushable_def free_or_file_def)

lemma line_step_flushable:
  assumes "flushable cf (files w)" and "line_step e dest debug cf line (t, c, s) w = (r, w')"
  shows "(\<exists>m. r = Inl (Exception m)) \<or> flushable cf (files w')"
  using assms(2)
proof (cases rule: line_step_cases)
  case interrupted
  with assms(1) show ?thesis by simp
next
  case (raised x w1)
  from translate_line_effects[OF raised(3)] raised(5) assms(1) show ?thesis by simp
next
  case (written chunk c1 w1 w2 s1)
  have f1: "files w1 = files w"
  proof (cases "QUOTE \<in> set line")
    case True
    with written(2) obtain new_line chg where
      "translate_line e (rstrip_newlines line) dest debug (Some (t + 1)) w = (Inr (new_line, chg), w1)"
      by auto
    from translate_line_effects[OF this] show ?thesis by simp
  next
    case False
    with written(2) show ?thesis by simp
  qed
  show ?thesis
  proof (cases "float_sub e (time_time e (t + 1)) s \<ge> CACHE_SAVE_INTERVAL_SEC")
    case True
    with written(3) obtain sr where
      sv: "save_cache cf (cache w1) (w1\<lparr>fout := fout w1 @ chunk\<rparr>) = (sr, w2)"
      and r: "case sr of Inl x \<Rightarrow> r = Inl x \<and> w' = w2
                   | Inr u \<Rightarrow> s1 = time_time e (t + 1)
                       \<and> r = Inr (t + 1, c1, s1)
                       \<and> w' = (if (t + 1) mod PROGRESS_EVERY_LINES = 0 \<and> \<not> debug
                               then w2\<lparr>diag := diag w2 @ [Progress (t + 1) c1 (length (cache w2))]\<rparr>
                               else w2)" by auto
    show ?thesis
    proof (cases sr)
      case (Inl x)
      from save_cache_frame[OF sv] Inl have "x \<noteq> KeyboardInterrupt" by auto
      then obtain m where "x = Exception m" by (cases x) auto
      with r Inl show ?thesis by simp
    next
      case (Inr u)
      with sv have "flushable cf (files w2)" by (simp add: save_cache_flushable)
      with r Inr show ?thesis by (auto split: if_splits)
    qed
  next
    case False
    with written(3) f1 assms(1) show ?thesis by (auto split: if_splits)
  qed
qed

lemma line_loop_flushable:
  "flushable cf (files w) \<Longrightarrow> line_loop e dest debug cf lines loc w = (r, w') \<Longrightarrow>
     (\<exists>m. r = Inl (Exception m)) \<or> flushable cf (files w')"
proof (induction lines arbitrary: loc w)
  case Nil
  then show ?case by simp
next
  case (Cons line lines)
  obtain t c s where loc: "loc = (t, c, s)" by (cases loc)
  obtain r1 w1 where st: "line_step e dest debug cf line (t, c, s) w = (r1, w1)"
    by (cases "line_step e dest debug cf line (t, c, s) w")
  note s1 = line_step_flushable[OF Cons.prems(1) st]
  show ?case
  proof (cases r1)
    case (Inl x)
    with Cons.prems(2) loc st have "w' = w1" "r = Inl x" by simp_all
    with s1 Inl show ?thesis by simp
  next
    case (Inr loc1)
    with Cons.prems(2) loc st have rest: "line_loop e dest debug cf lines loc1 w1 = (r, w')" by simp
    from s1 Inr have "flushable cf (files w1)" by simp
    from Cons.IH[OF this rest] show ?thesis .
  qed
qed

lemma dict_encodable_iff:
  "dict_encodable d \<longleftrightarrow> (\<forall>kv\<in>set d. encodable (fst kv) \<and> encodable (snd kv))"
  by (simp add: dict_encodable_def list_all_iff)

lemma main_opened:
  assumes "is_file (files w0) path = Inr True" and "load_cache cf w0 = (Inr (StrDict d), w0)"
  shows "main e path dest debug out_path cf w0 =
     (case process_file e path dest debug out_path cf (time_time e 0)
             (w0\<lparr>cache := d, diag := diag w0 @ [Header path out_path cf (length d) dest]\<rparr>) of
        (Inl KeyboardInterrupt, w4) \<Rightarrow>
          (case save_cache cf (cache w4) (w4\<lparr>diag := diag w4 @ [InterruptedMsg]\<rparr>) of
             (Inl x, w6) \<Rightarrow> (Uncaught x, w6)
           | (Inr u, w6) \<Rightarrow> (SysExit 1, w6\<lparr>diag := diag w6 @ [PartialOutputMsg out_path]\<rparr>))
      | (Inl (Exception msg), w4) \<Rightarrow> (Uncaught (Exception msg), w4)
      | (Inr (total_lines, changed_lines, saved), w4) \<Rightarrow>
          (case save_cache cf (cache w4) w4 of
             (Inl x, w5) \<Rightarrow> (Uncaught x, w5)
           | (Inr u, w5) \<Rightarrow>
               (Returned,
                w5\<lparr>diag := diag w5 @ [DoneMsg out_path total_lines changed_lines (length (cache w5))]\<rparr>)))"
  using assms by (simp add: main_def Let_def split: prod.splits sum.splits exn.splits)




text \<open>
  Claim C4 as stated fails for a cache file that holds a white-space key (one written by
  hand or by another tool, which \<open>load_cache\<close> takes as it is): the line \<open>" "\<close> comes out
  unchanged, not as \<open>"x"\<close>.
\<close>

theorem cache_hit_inert_counterexample:
  "fst (load_cache ''c.json'' (fresh_world [''in.a2l'' \<mapsto> Regular True [34, 32, 34, 10],
          ''c.json'' \<mapsto> Regular True [123, 34, 32, 34, 58, 34, 120, 34, 125]]))
     = Inr (StrDict [([32], [120])])
   \<and> fst (main (failing_stub 0 id) ''in.a2l'' (ustr_of ''es'') False ''out.a2l'' ''c.json''
          (fresh_world [''in.a2l'' \<mapsto> Regular True [34, 32, 34, 10],
             ''c.json'' \<mapsto> Regular True [123, 34, 32, 34, 58, 34, 120, 34, 125]])) = Returned
   \<and> files (snd (main (failing_stub 0 id) ''in.a2l'' (ustr_of ''es'') False ''out.a2l'' ''c.json''
          (fresh_world [''in.a2l'' \<mapsto> Regular True [34, 32, 34, 10],
             ''c.json'' \<mapsto> Regular True [123, 34, 32, 34, 58, 34, 120, 34, 125]]))) ''out.a2l''
       = Some (Regular True [34, 32, 34, 10])
   \<and> [34, 32, 34, 10] \<noteq> [34, 120, 34, 10 :: byte]"
  by (simp add: run_simps main_simps read_json_file_def
      json_loads_def starts_with_def skip_ws_def is_json_ws_def hex4_def hex_val_def
      simple_escape_def low_surrogate_after_def typed_def dict_of_pairs_def)

section \<open>Input file and output file\<close>

lemma main_returned:
  assumes "main e path dest debug out_path cf w0 = (Returned, w')"
  obtains d loc w4 w5 where "is_file (files w0) path = Inr True"
    and "load_cache cf w0 = (Inr (StrDict d), w0)"
    and "process_file e path dest debug out_path cf (time_time e 0)
           (w0\<lparr>cache := d, diag := diag w0 @ [Header path out_path cf (length d) dest]\<rparr>) = (Inr loc, w4)"
    and "save_cache cf (cache w4) w4 = (Inr (), w5)"
    and "w' = w5\<lparr>diag := diag w5 @ [DoneMsg out_path (fst loc) (fst (snd loc)) (length (cache w5))]\<rparr>"
proof -
  from assms have isf: "is_file (files w0) path = Inr True"
    by (auto simp: main_def split: sum.splits bool.splits)
  obtain r where ld: "load_cache cf w0 = (r, w0)"
    using load_cache_world[of cf w0] by (metis prod.collapse)
  from assms isf ld obtain d where r: "r = Inr (StrDict d)"
    by (auto simp: main_def split: sum.splits loaded.splits)
  note m = main_opened[OF isf ld[unfolded r], of e dest debug out_path]
  let ?start = "w0\<lparr>cache := d, diag := diag w0 @ [Header path out_path cf (length d) dest]\<rparr>"
  obtain pr w4 where p: "process_file e path dest debug out_path cf (time_time e 0) ?start = (pr, w4)"
    by (cases "process_file e path dest debug out_path cf (time_time e 0) ?start")
  from assms m p obtain loc where pr: "pr = Inr loc"
    by (cases pr) (auto split: exn.splits prod.splits sum.splits)
  obtain sr w5 where sv: "save_cache cf (cache w4) w4 = (sr, w5)"
    by (cases "save_cache cf (cache w4) w4")
  from assms m p pr sv have sr: "sr = Inr ()"
    by (cases sr) (auto split: prod.splits)
  from assms m p pr sv sr
  have "w' = w5\<lparr>diag := diag w5 @ [DoneMsg out_path (fst loc) (fst (snd loc)) (length (cache w5))]\<rparr>"
    by (auto split: prod.splits)
  with that[OF isf ld[unfolded r] p[unfolded pr] sv[unfolded sr]] show ?thesis by blast
qed

lemma universal_newlines_no_cr: "13 \<notin> set (universal_newlines s)"
  by (induction s rule: universal_newlines.induct) (auto simp: NEWLINE_def)

lemma refill_char_free:
  "c \<noteq> QUOTE \<Longrightarrow> (\<forall>x. Lit x \<in> set ps \<longrightarrow> x \<noteq> c) \<Longrightarrow> (\<forall>i. Frag i \<in> set ps \<longrightarrow> c \<notin> set i) \<Longrightarrow>
   (\<forall>t\<in>set outs. c \<notin> set t) \<Longrightarrow> c \<notin> set (refill ps outs)"
proof (induction ps outs rule: refill.induct)
  case (1 outs)
  then show ?case by simp
next
  case (2 x ps outs)
  then show ?case by auto
next
  case (3 inner ps)
  then show ?case by auto
next
  case (4 inner ps out outs)
  then show ?case by auto
qed

lemma rewritten_cr_free:
  assumes "13 \<notin> set line" and "\<forall>t\<in>set outs. 13 \<notin> set t"
  shows "13 \<notin> set (rewritten line outs)"
proof (cases "QUOTE \<in> set line")
  case False
  with assms(1) show ?thesis by (simp add: rewritten_def)
next
  case True
  let ?body = "rstrip_newlines line"
  from assms(1) rstrip_newlines_subset[of line] have b: "13 \<notin> set ?body" by blast
  have "13 \<notin> set (refill (quote_matches ?body) outs)"
  proof (rule refill_char_free)
    show "13 \<noteq> QUOTE" by (simp add: QUOTE_def)
    show "\<forall>x. Lit x \<in> set (quote_matches ?body) \<longrightarrow> x \<noteq> 13"
      using lit_in_matches b by blast
    show "\<forall>i. Frag i \<in> set (quote_matches ?body) \<longrightarrow> 13 \<notin> set i"
      using frag_in_matches b by blast
    show "\<forall>t\<in>set outs. 13 \<notin> set t" by (rule assms(2))
  qed
  with True show ?thesis by (simp add: rewritten_def NEWLINE_def)
qed

lemma proper_lines_each:
  "proper_lines ls \<Longrightarrow> l \<in> set ls \<Longrightarrow> l \<noteq> [] \<and> NEWLINE \<notin> set (butlast l)"
  by (induction ls rule: proper_lines.induct) auto

lemma filter_terminated:
  assumes "l \<noteq> []" and "last l = NEWLINE" and "NEWLINE \<notin> set (butlast l)"
  shows "filter (\<lambda>c. c < 256) l \<noteq> [] \<and> last (filter (\<lambda>c. c < 256) l) = NEWLINE
     \<and> NEWLINE \<notin> set (butlast (filter (\<lambda>c. c < 256) l))"
proof -
  from assms(1,2) have l: "l = butlast l @ [NEWLINE]" by (rule terminated_snoc)
  have "filter (\<lambda>c. c < 256) l = filter (\<lambda>c. c < 256) (butlast l) @ [NEWLINE]"
    by (subst l) (simp add: NEWLINE_def)
  with assms(3) show ?thesis by simp
qed

lemma proper_filter:
  "proper_lines ls \<Longrightarrow> (\<forall>l\<in>set ls. last l \<noteq> NEWLINE \<longrightarrow> (\<forall>c\<in>set l. c < 256)) \<Longrightarrow>
   proper_lines (map (filter (\<lambda>c. c < 256)) ls)"
proof (induction ls rule: proper_lines.induct)
  case 1
  then show ?case by simp
next
  case (2 l)
  show ?case
  proof (cases "last l = NEWLINE")
    case True
    with 2 filter_terminated[of l] show ?thesis by simp
  next
    case False
    with 2 have "filter (\<lambda>c. c < 256) l = l" by simp
    with 2 show ?thesis by simp
  qed
next
  case (3 l v va)
  then have "l \<noteq> []" "last l = NEWLINE" "NEWLINE \<notin> set (butlast l)" by simp_all
  from filter_terminated[OF this] 3 show ?case by simp
qed

lemma unat_latin1_bytes:
  "map unat (map of_nat (filter (\<lambda>c. c < 256) t) :: byte list) = filter (\<lambda>c. c < 256) t"
  by (induction t) (simp_all add: unat_byte_of_nat)

lemma rewritten_unterminated:
  "last (rewritten line outs) \<noteq> NEWLINE \<Longrightarrow> rewritten line outs = line"
  by (simp add: rewritten_def split: if_splits)

text \<open>
  Claim C1, as amended. Let a run return, over an input whose last line ends with a
  newline or holds no quote, the output path apart from the input and from the cache
  location. The output file then holds, for each line of the input as text mode reads it
  and in order, that line with the contents of its matched fragments exchanged and
  nothing else touched (every character outside the fragments and every quote in place
  and in order; the input line itself is the same refill with its own fragment texts),
  encoded with latin1. When moreover no answer of the translator and no value of the
  loaded cache holds a newline or a carriage return, the output file reads back as as
  many lines as the input.
\<close>

theorem only_fragment_contents_change:
  assumes run: "main e path dest debug out_path cf w0 = (Returned, w')"
    and input: "open_r (files w0 path) = Inr bs"
    and apart: "out_path \<noteq> path \<and> out_path \<noteq> cf \<and> out_path \<noteq> tmp_path cf"
    and ended: "\<forall>line\<in>set (split_keepends (universal_newlines (map unat bs))).
                  QUOTE \<in> set line \<longrightarrow> last line = NEWLINE"
  shows "\<exists>d mk outss out.
       fst (load_cache cf w0) = Inr (StrDict d) \<and> open_w (files w0 out_path) = Inr mk
     \<and> list_all2 (\<lambda>line outs. length outs = length (fragments_of line))
          (split_keepends (universal_newlines (map unat bs))) outss
     \<and> (\<forall>line\<in>set (split_keepends (universal_newlines (map unat bs))).
           rewritten line (fragments_of line) = line)
     \<and> out = map of_nat (filter (\<lambda>c. c < 256)
                (concat (map2 rewritten (split_keepends (universal_newlines (map unat bs))) outss)))
     \<and> files w' out_path = Some (mk out)
     \<and> ((\<forall>n t dd r. translate e n t dd = Inr r \<longrightarrow> NEWLINE \<notin> set r \<and> 13 \<notin> set r)
          \<and> (\<forall>kv\<in>set d. NEWLINE \<notin> set (snd kv) \<and> 13 \<notin> set (snd kv))
        \<longrightarrow> length (split_keepends (universal_newlines (map unat out)))
              = length (split_keepends (universal_newlines (map unat bs))))"
proof -
  let ?lines = "split_keepends (universal_newlines (map unat bs))"
  let ?latin = "\<lambda>t. map of_nat (filter (\<lambda>c. c < 256) t) :: byte list"
  from run obtain d loc w4 w5 where
    ld: "load_cache cf w0 = (Inr (StrDict d), w0)"
    and pf: "process_file e path dest debug out_path cf (time_time e 0)
           (w0\<lparr>cache := d, diag := diag w0 @ [Header path out_path cf (length d) dest]\<rparr>) = (Inr loc, w4)"
    and sv: "save_cache cf (cache w4) w4 = (Inr (), w5)"
    and w': "w' = w5\<lparr>diag := diag w5 @ [DoneMsg out_path (fst loc) (fst (snd loc)) (length (cache w5))]\<rparr>"
    by (rule main_returned)
  let ?start = "w0\<lparr>cache := d, diag := diag w0 @ [Header path out_path cf (length d) dest]\<rparr>"
  from pf input apart obtain mk w2 where
    o: "open_w (files w0 out_path) = Inr mk"
    and ll: "line_loop e dest debug cf ?lines (0, 0, time_time e 0)
               (?start\<lparr>files := (files ?start)(out_path \<mapsto> mk []), fout := []\<rparr>) = (Inr loc, w2)"
    and w4: "w4 = w2\<lparr>files := (files w2)(out_path \<mapsto> mk (?latin (fout w2)))\<rparr>"
    by (cases rule: process_file_cases) auto
  from save_cache_frame[OF sv] apart w4 w'
  have out: "files w' out_path = Some (mk (?latin (fout w2)))" by simp
  have pl: "proper_lines ?lines" by (rule proper_split)
  have own: "\<forall>line\<in>set ?lines. rewritten line (fragments_of line) = line"
  proof
    fix line assume l: "line \<in> set ?lines"
    from proper_lines_each[OF pl l] ended l
    have "QUOTE \<notin> set line \<or> (line \<noteq> [] \<and> last line = NEWLINE \<and> NEWLINE \<notin> set (butlast line))"
      by blast
    then show "rewritten line (fragments_of line) = line" by (rule rewritten_own)
  qed
  let ?clean = "(\<forall>n t dd r. translate e n t dd = Inr r \<longrightarrow> NEWLINE \<notin> set r \<and> 13 \<notin> set r)
          \<and> (\<forall>kv\<in>set d. NEWLINE \<notin> set (snd kv) \<and> 13 \<notin> set (snd kv))"
  have "\<exists>outss. list_all2 (\<lambda>line outs. length outs = length (fragments_of line)) ?lines outss
      \<and> fout w2 = concat (map2 rewritten ?lines outss)
      \<and> (?clean \<longrightarrow> length (split_keepends (universal_newlines
                          (map unat (?latin (concat (map2 rewritten ?lines outss))))))
                      = length ?lines)"
  proof (cases ?clean)
    case False
    from line_loop_chunks[OF ll] obtain outss where
      "list_all2 (\<lambda>line outs. length outs = length (fragments_of line)) ?lines outss"
      "fout w2 = concat (map2 rewritten ?lines outss)" by auto
    with False show ?thesis by blast
  next
    case True
    let ?P = "\<lambda>t. NEWLINE \<notin> set t \<and> 13 \<notin> set t"
    from True have env: "\<forall>n t dd r. translate e n t dd = Inr r \<longrightarrow> ?P r" by blast
    from True have inv: "\<forall>kv\<in>set (cache (?start\<lparr>files := (files ?start)(out_path \<mapsto> mk []), fout := []\<rparr>)).
        True \<and> ?P (snd kv)" by simp
    have nocr: "13 \<notin> set line" if "line \<in> set ?lines" for line
      using split_keepends_set[OF that] universal_newlines_no_cr by blast
    have fr: "\<forall>line\<in>set ?lines. \<forall>inner\<in>set (fragments_of line). True \<and> ?P inner"
    proof (intro ballI conjI)
      fix line inner assume l: "line \<in> set ?lines" and i: "inner \<in> set (fragments_of line)"
      from i show "NEWLINE \<notin> set inner"
        using frag_in_matches by (auto simp: fragments_of_def frag_texts_set)
      from fragments_of_chars[OF i] nocr[OF l] show "13 \<notin> set inner" by blast
    qed simp
    from line_loop_texts[where P="?P" and K="\<lambda>k. True", OF env inv fr ll]
    have "\<exists>outss. list_all2 (\<lambda>line outs. length outs = length (fragments_of line) \<and> (\<forall>t\<in>set outs. ?P t))
           ?lines outss
        \<and> fout w2 = fout (?start\<lparr>files := (files ?start)(out_path \<mapsto> mk []), fout := []\<rparr>)
              @ concat (map2 rewritten ?lines outss)" by blast
    then obtain outss where os:
      "list_all2 (\<lambda>line outs. length outs = length (fragments_of line) \<and> (\<forall>t\<in>set outs. ?P t))
         ?lines outss"
      "fout w2 = concat (map2 rewritten ?lines outss)" by auto
    let ?chunks = "map2 rewritten ?lines outss"
    from os(1) have os1: "list_all2 (\<lambda>line outs. length outs = length (fragments_of line)
         \<and> (\<forall>t\<in>set outs. NEWLINE \<notin> set t)) ?lines outss"
      by (rule list_all2_mono) simp
    have pc: "proper_lines ?chunks" by (rule rewritten_lines_proper[OF os1 pl])
    have members: "\<exists>line outs. line \<in> set ?lines \<and> (\<forall>t\<in>set outs. ?P t) \<and> ch = rewritten line outs"
      if "ch \<in> set ?chunks" for ch
    proof -
      from that obtain line outs where z: "(line, outs) \<in> set (zip ?lines outss)"
        and c: "ch = rewritten line outs" by auto
      from z have "line \<in> set ?lines" by (rule set_zip_leftD)
      moreover from os(1) z have "\<forall>t\<in>set outs. ?P t"
        by (auto simp: list_all2_iff)
      ultimately show ?thesis using c by blast
    qed
    have small: "\<forall>ch\<in>set ?chunks. last ch \<noteq> NEWLINE \<longrightarrow> (\<forall>c\<in>set ch. c < 256)"
    proof (intro ballI impI)
      fix ch c assume ch: "ch \<in> set ?chunks" and nl: "last ch \<noteq> NEWLINE" and c: "c \<in> set ch"
      from members[OF ch] obtain line outs where l: "line \<in> set ?lines" and e: "ch = rewritten line outs"
        by blast
      from nl[unfolded e] have "rewritten line outs = line" by (rule rewritten_unterminated)
      with e have "ch = line" by simp
      with c split_keepends_set[OF l] have "c \<in> set (universal_newlines (map unat bs))" by blast
      then show "c < 256" by (rule input_chars_small)
    qed
    have cr: "13 \<notin> set (concat ?chunks)"
    proof
      assume "13 \<in> set (concat ?chunks)"
      then obtain ch where ch: "ch \<in> set ?chunks" and c: "13 \<in> set ch" by auto
      from members[OF ch] obtain line outs where l: "line \<in> set ?lines"
        and o: "\<forall>t\<in>set outs. ?P t" and e: "ch = rewritten line outs" by blast
      from o have "\<forall>t\<in>set outs. 13 \<notin> set t" by blast
      from rewritten_cr_free[OF nocr[OF l] this] c e show False by simp
    qed
    let ?F = "filter (\<lambda>c. c < 256) (concat ?chunks)"
    from cr have "13 \<notin> set ?F" by simp
    then have u: "universal_newlines ?F = ?F" by (rule universal_newlines_id)
    have F: "?F = concat (map (filter (\<lambda>c. c < 256)) ?chunks)" by (simp add: filter_concat)
    have "split_keepends ?F = map (filter (\<lambda>c. c < 256)) ?chunks"
      unfolding F by (rule split_proper[OF proper_filter[OF pc small]])
    then have "length (split_keepends ?F) = length ?lines"
      using os(1) by (simp add: list_all2_lengthD)
    then have n: "length (split_keepends (universal_newlines (map unat (?latin (concat ?chunks)))))
        = length ?lines"
      by (simp only: unat_latin1_bytes u)
    from os(1) have "list_all2 (\<lambda>line outs. length outs = length (fragments_of line)) ?lines outss"
      by (rule list_all2_mono) simp
    with os(2) n show ?thesis by blast
  qed
  then obtain outss where a: "list_all2 (\<lambda>line outs. length outs = length (fragments_of line)) ?lines outss"
    and b: "fout w2 = concat (map2 rewritten ?lines outss)"
    and c: "?clean \<longrightarrow> length (split_keepends (universal_newlines
                          (map unat (?latin (concat (map2 rewritten ?lines outss))))))
                      = length ?lines" by blast
  from ld have l: "fst (load_cache cf w0) = Inr (StrDict d)" by simp
  show ?thesis
    using l o a own out[unfolded b] c
    by (intro exI[of _ d] exI[of _ mk] exI[of _ outss]
        exI[of _ "?latin (concat (map2 rewritten ?lines outss))"]) simp
qed

theorem only_fragment_contents_change_witness:
  "fst (main (failing_stub 0 (\<lambda>t. ustr_of ''hola'')) ''in.a2l'' (ustr_of ''es'') False ''out.a2l'' ''c.json''
         (fresh_world [''in.a2l'' \<mapsto> Regular True
            [115, 97, 121, 32, 34, 104, 105, 34, 10, 101, 110, 100]])) = Returned
   \<and> files (snd (main (failing_stub 0 (\<lambda>t. ustr_of ''hola'')) ''in.a2l'' (ustr_of ''es'') False ''out.a2l''
         ''c.json'' (fresh_world [''in.a2l'' \<mapsto> Regular True
            [115, 97, 121, 32, 34, 104, 105, 34, 10, 101, 110, 100]]))) ''out.a2l''
       = Some (Regular True [115, 97, 121, 32, 34, 104, 111, 108, 97, 34, 10, 101, 110, 100])
   \<and> length (split_keepends (universal_newlines (map unat
         [115, 97, 121, 32, 34, 104, 111, 108, 97, 34, 10, 101, 110, 100 :: byte])))
       = length (split_keepends (universal_newlines (map unat
         [115, 97, 121, 32, 34, 104, 105, 34, 10, 101, 110, 100 :: byte])))"
proof -
  let ?e = "failing_stub 0 (\<lambda>t. ustr_of ''hola'')"
  let ?bs = "[115, 97, 121, 32, 34, 104, 105, 34, 10, 101, 110, 100] :: byte list"
  let ?B = "[115, 97, 121, 32, 34, 104, 111, 108, 97, 34, 10, 101, 110, 100] :: byte list"
  let ?w = "fresh_world [''in.a2l'' \<mapsto> Regular True ?bs]"
  let ?m = "main ?e ''in.a2l'' (ustr_of ''es'') False ''out.a2l'' ''c.json'' ?w"
  have ret: "fst ?m = Returned"
    by (simp add: run_simps main_simps)
  then have run: "?m = (Returned, snd ?m)" by (metis prod.collapse)
  have outf: "files (snd ?m) ''out.a2l'' = Some (Regular True ?B)"
    by (simp add: run_simps main_simps)
  have input: "open_r (files ?w ''in.a2l'') = Inr ?bs"
    by (simp add: open_r_def fresh_world_def)
  have apart: "''out.a2l'' \<noteq> ''in.a2l'' \<and> ''out.a2l'' \<noteq> ''c.json'' \<and> ''out.a2l'' \<noteq> tmp_path ''c.json''"
    by (simp add: tmp_path_def)
  have ended: "\<forall>line\<in>set (split_keepends (universal_newlines (map unat ?bs))).
                  QUOTE \<in> set line \<longrightarrow> last line = NEWLINE"
    by (simp add: QUOTE_def NEWLINE_def)
  from only_fragment_contents_change[OF run input apart ended]
  obtain d mk out where d: "fst (load_cache ''c.json'' ?w) = Inr (StrDict d)"
    and mk: "open_w (files ?w ''out.a2l'') = Inr mk"
    and f: "files (snd ?m) ''out.a2l'' = Some (mk out)"
    and n: "(\<forall>n t dd r. translate ?e n t dd = Inr r \<longrightarrow> NEWLINE \<notin> set r \<and> 13 \<notin> set r)
          \<and> (\<forall>kv\<in>set d. NEWLINE \<notin> set (snd kv) \<and> 13 \<notin> set (snd kv))
        \<longrightarrow> length (split_keepends (universal_newlines (map unat out)))
              = length (split_keepends (universal_newlines (map unat ?bs)))"
    by blast
  from d have "d = []" by (simp add: load_cache_def is_file_def fresh_world_def)
  moreover have "\<forall>n t dd r. translate ?e n t dd = Inr r \<longrightarrow> NEWLINE \<notin> set r \<and> 13 \<notin> set r"
    by (auto simp: failing_stub_def ustr_of_def NEWLINE_def)
  ultimately have cnt: "length (split_keepends (universal_newlines (map unat out)))
              = length (split_keepends (universal_newlines (map unat ?bs)))"
    using n by simp
  from mk have "mk = Regular True" by (simp add: open_w_def fresh_world_def)
  with f outf have "out = ?B" by simp
  with cnt ret outf show ?thesis by simp
qed

text \<open>
  Claim C1 as stated fails on the line count: the text a translator (or a cache file)
  supplies is written as it comes, so an answer that holds a newline, or a carriage
  return, turns the one-line input \<open>"x"\<close> into an output file of two lines.
\<close>

theorem line_count_counterexample:
  "fst (main (failing_stub 0 (\<lambda>t. [97, 10, 98])) ''in.a2l'' (ustr_of ''es'') False ''out.a2l'' ''c.json''
        (fresh_world [''in.a2l'' \<mapsto> Regular True [34, 120, 34, 10]])) = Returned
   \<and> files (snd (main (failing_stub 0 (\<lambda>t. [97, 10, 98])) ''in.a2l'' (ustr_of ''es'') False ''out.a2l'' ''c.json''
        (fresh_world [''in.a2l'' \<mapsto> Regular True [34, 120, 34, 10]]))) ''out.a2l''
      = Some (Regular True [34, 97, 10, 98, 34, 10])
   \<and> files (snd (main (failing_stub 0 (\<lambda>t. [97, 13, 98])) ''in.a2l'' (ustr_of ''es'') False ''out.a2l'' ''c.json''
        (fresh_world [''in.a2l'' \<mapsto> Regular True [34, 120, 34, 10]]))) ''out.a2l''
      = Some (Regular True [34, 97, 13, 98, 34, 10])
   \<and> length (split_keepends (universal_newlines (map unat [34, 120, 34, 10 :: byte]))) = 1
   \<and> length (split_keepends (universal_newlines (map unat [34, 97, 10, 98, 34, 10 :: byte]))) = 2
   \<and> length (split_keepends (universal_newlines (map unat [34, 97, 13, 98, 34, 10 :: byte]))) = 2"
  by (simp add: run_simps main_simps)

end
